theory Spec2Isabelle
  imports Main
begin

section \<open>Delivery graph (src/daa_project.c++, lines 1254-1294)\<close>

text \<open>
  The graph is the global 20 x 20 matrix \<open>deliveryGraph\<close> together with \<open>locationCount\<close>
  and the adjacency lists \<open>adjList\<close>. Vertex numbers are array indices and are modelled
  as \<open>nat\<close>; weights are C++ \<open>int\<close> and are modelled as \<open>int\<close> (32-bit overflow is
  not reached by the sums taken below at the weights considered). The matrix is a
  list of 20 rows of 20 weights, and \<open>adjList\<close> a list of 20 lists of
  \<open>(dest, weight)\<close> nodes. An index of 20 or more is outside the C++ arrays (the
  source does not check it); every statement below keeps vertex numbers under
  \<open>locationCount \<le> MAX_LOCATIONS\<close>.
\<close>

definition MAX_LOCATIONS :: nat where
  "MAX_LOCATIONS = 20"

record graph =
  locationCount :: nat
  deliveryGraph :: "int list list"
  adjList :: "(nat \<times> int) list list"

text \<open>The zero-initialised globals before any call.\<close>

definition graph0 :: graph where
  "graph0 = \<lparr>locationCount = 0,
              deliveryGraph = replicate MAX_LOCATIONS (replicate MAX_LOCATIONS 0),
              adjList = replicate MAX_LOCATIONS []\<rparr>"

definition set_weight :: "nat \<Rightarrow> nat \<Rightarrow> int \<Rightarrow> int list list \<Rightarrow> int list list" where
  "set_weight i j w m = m[i := (m ! i)[j := w]]"

text \<open>\<open>initDeliveryGraph\<close>: the two nested \<open>for\<close> loops, as folds over the index ranges.\<close>

definition init_row :: "nat \<Rightarrow> nat \<Rightarrow> graph \<Rightarrow> graph" where
  "init_row nodes i g =
     (let g' = fold (\<lambda>j g. g\<lparr>deliveryGraph := set_weight i j (if i = j then 0 else 99999) (deliveryGraph g)\<rparr>)
                 [0..<nodes] g
      in g'\<lparr>adjList := (adjList g')[i := []]\<rparr>)"

definition initDeliveryGraph :: "nat \<Rightarrow> graph \<Rightarrow> graph" where
  "initDeliveryGraph nodes g = fold (init_row nodes) [0..<nodes] (g\<lparr>locationCount := nodes\<rparr>)"

definition addDeliveryEdge :: "nat \<Rightarrow> nat \<Rightarrow> int \<Rightarrow> graph \<Rightarrow> graph" where
  "addDeliveryEdge u v w g =
     (let m1 = set_weight u v w (deliveryGraph g);
          m2 = set_weight v u w m1;
          a1 = (adjList g)[u := (v, w) # adjList g ! u];
          a2 = a1[v := (u, w) # a1 ! v]
      in g\<lparr>deliveryGraph := m2, adjList := a2\<rparr>)"

text \<open>A graph built by \<open>init(n)\<close> followed by a list of \<open>addEdge(u, v, w)\<close> calls, in order.\<close>

definition build_graph :: "nat \<Rightarrow> (nat \<times> nat \<times> int) list \<Rightarrow> graph" where
  "build_graph n es = fold (\<lambda>(u, v, w). addDeliveryEdge u v w) es (initDeliveryGraph n graph0)"

text \<open>The sample graph of \<open>algorithmDemoMenu\<close> (lines 3490-3495).\<close>

definition sample_edges :: "(nat \<times> nat \<times> int) list" where
  "sample_edges = [(0,1,7), (0,2,9), (0,5,14), (1,2,10), (1,3,15), (2,3,11), (2,5,2), (3,4,6), (4,5,9)]"

definition sample_graph :: graph where
  "sample_graph = build_graph 6 sample_edges"

section \<open>Nearest-neighbour tour (lines 2645-2683)\<close>

text \<open>
  The inner \<open>for j\<close> loop of \<open>tspApproximation\<close>: the state is \<open>(nearest, minDist)\<close>, with
  \<open>nearest = -1\<close> modelled as \<open>None\<close>.
\<close>

definition nearest_step :: "int list list \<Rightarrow> bool list \<Rightarrow> nat \<Rightarrow> nat \<Rightarrow> nat option \<times> int \<Rightarrow> nat option \<times> int" where
  "nearest_step m visited current j st =
     (if \<not> visited ! j \<and> m ! current ! j < snd st then (Some j, m ! current ! j) else st)"

definition find_nearest :: "int list list \<Rightarrow> bool list \<Rightarrow> nat \<Rightarrow> nat \<Rightarrow> nat option" where
  "find_nearest m visited current n =
     fst (fold (nearest_step m visited current) [0..<n] (None, 1000000000))"

text \<open>The body of the outer \<open>for i\<close> loop: the state is \<open>(route, visited, current)\<close>.\<close>

definition tsp_step :: "int list list \<Rightarrow> nat \<Rightarrow> nat list \<times> bool list \<times> nat \<Rightarrow> nat list \<times> bool list \<times> nat" where
  "tsp_step m n st =
     (case st of (route, visited, current) \<Rightarrow>
        (case find_nearest m visited current n of
           None \<Rightarrow> (route, visited, current)
         | Some nearest \<Rightarrow> (route @ [nearest], visited[nearest := True], nearest)))"

definition tspApproximation :: "graph \<Rightarrow> nat \<Rightarrow> nat \<Rightarrow> nat list" where
  "tspApproximation g start n =
     (case fold (\<lambda>i. tsp_step (deliveryGraph g) n) [1..<n]
             ([start], (replicate n False)[start := True], start) of
        (route, visited, current) \<Rightarrow> route @ [start])"

text \<open>
  \<open>displayTSPRoute\<close> prints one line per leg, \<open>from -> to (Distance: dist)\<close>, and the
  total. The model returns the printed legs and the printed total.
\<close>

definition route_legs :: "graph \<Rightarrow> nat list \<Rightarrow> (nat \<times> nat \<times> int) list" where
  "route_legs g route =
     map (\<lambda>i. (route ! i, route ! (i + 1), deliveryGraph g ! (route ! i) ! (route ! (i + 1))))
       [0..<length route - 1]"

definition displayTSPRoute :: "graph \<Rightarrow> nat list \<Rightarrow> (nat \<times> nat \<times> int) list \<times> int" where
  "displayTSPRoute g route =
     (route_legs g route, fold (\<lambda>(a, b, d) total. total + d) (route_legs g route) 0)"


section \<open>Dijkstra with a priority queue (lines 1513-1543)\<close>

text \<open>
  \<open>priority_queue<pair<int,int>, ..., greater<...>>\<close> is a min-queue of pairs
  \<open>(distance, vertex)\<close> ordered lexicographically. It is modelled as the list of its
  elements; \<open>top\<close> is the least pair and \<open>pop\<close> removes one copy of it.
\<close>

fun pair_less :: "int \<times> nat \<Rightarrow> int \<times> nat \<Rightarrow> bool" where
  "pair_less (d1, u1) (d2, u2) = (d1 < d2 \<or> (d1 = d2 \<and> u1 < u2))"

definition pq_top :: "(int \<times> nat) list \<Rightarrow> int \<times> nat" where
  "pq_top pq = fold (\<lambda>x least. if pair_less x least then x else least) (tl pq) (hd pq)"

definition pq_pop :: "(int \<times> nat) list \<Rightarrow> (int \<times> nat) list" where
  "pq_pop pq = remove1 (pq_top pq) pq"

text \<open>The body of the \<open>for v\<close> loop; the state is \<open>(dist, parent, pq)\<close>.\<close>

definition relax :: "int list list \<Rightarrow> nat \<Rightarrow> nat \<Rightarrow> int list \<times> int list \<times> (int \<times> nat) list \<Rightarrow> int list \<times> int list \<times> (int \<times> nat) list" where
  "relax m u v st =
     (case st of (dist, parent, pq) \<Rightarrow>
        if m ! u ! v \<noteq> 0 \<and> dist ! u + m ! u ! v < dist ! v
        then (dist[v := dist ! u + m ! u ! v], parent[v := int u], pq @ [(dist ! u + m ! u ! v, v)])
        else st)"

text \<open>The \<open>while (!pq.empty())\<close> loop. It need not end for every matrix, so not returning is \<open>None\<close>.\<close>

partial_function (option) dijkstra_loop :: "int list list \<Rightarrow> nat \<Rightarrow> int list \<Rightarrow> int list \<Rightarrow> (int \<times> nat) list \<Rightarrow> (int list \<times> int list) option" where
  "dijkstra_loop m n dist parent pq =
     (if pq = [] then Some (dist, parent)
      else (case pq_top pq of (d, u) \<Rightarrow>
        if d > dist ! u then dijkstra_loop m n dist parent (pq_pop pq)
        else (case fold (relax m u) [0..<n] (dist, parent, pq_pop pq) of
                (dist', parent', pq') \<Rightarrow> dijkstra_loop m n dist' parent' pq')))"

declare dijkstra_loop.simps [code]

text \<open>
  The printed report: one line per location, \<open>Location i -> Distance: d\<close> with
  \<open>d = -1\<close> when \<open>dist[i] == 1e9\<close>, followed by \<open>(via p)\<close> when \<open>parent[i] != -1\<close>.
  The model returns the triples \<open>(i, d, parent[i])\<close>.
\<close>

definition dijkstraOptimized :: "graph \<Rightarrow> nat \<Rightarrow> nat \<Rightarrow> (nat \<times> int \<times> int) list option" where
  "dijkstraOptimized g src n =
     (case dijkstra_loop (deliveryGraph g) n ((replicate n 1000000000)[src := 0]) (replicate n (- 1)) [(0, src)] of
        None \<Rightarrow> None
      | Some (dist, parent) \<Rightarrow>
          Some (map (\<lambda>i. (i, if dist ! i = 1000000000 then - 1 else dist ! i, parent ! i)) [0..<n]))"

text \<open>Auxiliary predicates for the proofs about the tour.\<close>

definition weights_below :: "int list list \<Rightarrow> bool" where
  "weights_below m = (length m = MAX_LOCATIONS \<and>
     (\<forall>row \<in> set m. length row = MAX_LOCATIONS \<and> (\<forall>x \<in> set row. x < 1000000000)))"

definition tour_inv :: "nat \<Rightarrow> nat \<Rightarrow> nat \<Rightarrow> nat list \<times> bool list \<times> nat \<Rightarrow> bool" where
  "tour_inv n start k st = (case st of (route, visited, current) \<Rightarrow>
     distinct route \<and> set route \<subseteq> {0..<n} \<and> length route = k \<and> hd route = start \<and>
     current < n \<and> length visited = n \<and> (\<forall>j<n. visited ! j \<longleftrightarrow> j \<in> set route))"

section \<open>Order heap (lines 662-692 and 3584-3585)\<close>

text \<open>
  \<open>orderHeap\<close> is a global array of \<open>MAX_ORDERS = 300\<close> orders and \<open>orderHeapSize\<close>
  the number in use. The array is a store from indices to orders; indices of 300 or
  more are outside the C++ array. Of \<open>Domain::Order\<close> the heap code reads only
  \<open>priority\<close>; the fields \<open>items\<close>, \<open>itemCount\<close>, \<open>totalAmount\<close>,
  \<open>status\<close> and \<open>orderTime\<close> travel with the order and are left out.
\<close>

definition MAX_ORDERS :: nat where
  "MAX_ORDERS = 300"

record Order =
  orderId :: int
  customerId :: int
  tableNumber :: int
  priority :: int

record scheduler =
  orderHeap :: "nat \<Rightarrow> Order"
  orderHeapSize :: nat

function orderHeapifyUp :: "nat \<Rightarrow> (nat \<Rightarrow> Order) \<Rightarrow> (nat \<Rightarrow> Order)" where
  "orderHeapifyUp index h =
     (if index > 0 then
        (let parent = (index - 1) div 2 in
         if priority (h parent) \<ge> priority (h index) then h
         else orderHeapifyUp parent (h(parent := h index, index := h parent)))
      else h)"
  by pat_completeness auto
termination
  by (relation "measure fst") auto

declare orderHeapifyUp.simps [simp del]

text \<open>
  The only place that adds to the heap is \<open>demoOrderManagement\<close>:
  \<open>orderHeap[orderHeapSize++] = o; orderHeapifyUp(orderHeapSize - 1);\<close>.
  The source has no test of \<open>orderHeapSize\<close> against \<open>MAX_ORDERS\<close>. With 300 orders
  stored the assignment writes \<open>orderHeap[300]\<close>, past the end of the array, which
  C++ leaves undefined; the model marks that store as \<open>ArrayOverrun\<close> with the index
  written.
\<close>

datatype 'a outcome = Returns 'a | ArrayOverrun nat

definition push_order :: "Order \<Rightarrow> scheduler \<Rightarrow> scheduler outcome" where
  "push_order ord s =
     (let i = orderHeapSize s in
      if i < MAX_ORDERS
      then Returns \<lparr>orderHeap = orderHeapifyUp i ((orderHeap s)(i := ord)), orderHeapSize = i + 1\<rparr>
      else ArrayOverrun i)"

text \<open>The max-heap property on the first \<open>n\<close> cells.\<close>

definition is_heap :: "(nat \<Rightarrow> Order) \<Rightarrow> nat \<Rightarrow> bool" where
  "is_heap h n = (\<forall>i. 0 < i \<and> i < n \<longrightarrow> priority (h ((i - 1) div 2)) \<ge> priority (h i))"

text \<open>The heap property with one cell still on its way up (the loop invariant of \<open>orderHeapifyUp\<close>).\<close>

definition heap_except :: "(nat \<Rightarrow> Order) \<Rightarrow> nat \<Rightarrow> nat \<Rightarrow> bool" where
  "heap_except h n i =
     ((\<forall>j. 0 < j \<and> j < n \<and> j \<noteq> i \<longrightarrow> priority (h ((j - 1) div 2)) \<ge> priority (h j)) \<and>
      (\<forall>j. 0 < j \<and> j < n \<and> (j - 1) div 2 = i \<and> 0 < i \<longrightarrow>
           priority (h ((i - 1) div 2)) \<ge> priority (h j)))"

text \<open>Concrete states used below: a heap of two orders, a heap that fills the array, and single orders.\<close>

definition mk_order :: "int \<Rightarrow> int \<Rightarrow> Order" where
  "mk_order oid prio = \<lparr>orderId = oid, customerId = 1, tableNumber = 1, priority = prio\<rparr>"

definition small_heap :: scheduler where
  "small_heap = \<lparr>orderHeap = (\<lambda>i. if i = 0 then mk_order 1 7 else mk_order 2 5), orderHeapSize = 2\<rparr>"

definition full_heap :: scheduler where
  "full_heap = \<lparr>orderHeap = (\<lambda>i. mk_order (int i + 1) 5), orderHeapSize = 300\<rparr>"

section \<open>Resizing hash table (class DynamicInventoryTable, lines 2003-2100)\<close>

text \<open>
  A slot is a \<open>HashNode\<close>: a name, an item and the flag \<open>used\<close>. Of
  \<open>InventoryItem\<close> the table reads no field, it only copies items; the field
  \<open>costPerUnit\<close> (a \<open>double\<close>) is left out. A default-constructed node has
  \<open>used = false\<close> and an empty name; the numbers of its item are indeterminate in
  C++ and are not read while the slot is unused.

  \<open>currentSize\<close> and \<open>itemCount\<close> are C++ \<open>int\<close>s that are never negative and are
  modelled as \<open>nat\<close>; the statements below are about the capacities 53 and 107,
  far from the 32-bit bound. Characters are taken with their codes 0..255 (for
  ASCII keys this is \<open>(int)c\<close> on every platform).
\<close>

record InventoryItem =
  item_name :: string
  quantity :: int
  item_unit :: string
  reorderLevel :: int

record HashNode =
  name :: string
  item :: InventoryItem
  used :: bool

definition blank_node :: HashNode where
  "blank_node = \<lparr>name = [], item = \<lparr>item_name = [], quantity = 0, item_unit = [], reorderLevel = 0\<rparr>, used = False\<rparr>"

text \<open>
  The object state. \<open>resizeLog\<close> is the list of the messages
  \<open>Hash table resized to N\<close> that \<open>rehash\<close> hands to the logger, oldest first,
  each as its number \<open>N\<close>.
\<close>

record DynamicInventoryTable =
  table :: "HashNode list"
  currentSize :: nat
  itemCount :: nat
  resizeLog :: "nat list"

definition INITIAL_SIZE :: nat where
  "INITIAL_SIZE = 53"

text \<open>The constructor.\<close>

definition new_table :: DynamicInventoryTable where
  "new_table = \<lparr>table = replicate INITIAL_SIZE blank_node, currentSize = INITIAL_SIZE,
                 itemCount = 0, resizeLog = []\<rparr>"

definition hash :: "string \<Rightarrow> nat \<Rightarrow> nat" where
  "hash key cap = fold (\<lambda>c total. total + of_char c) key 0 mod cap"

text \<open>
  \<open>nextPrime\<close>: the inner \<open>for\<close> loop is trial division from \<open>i\<close> while \<open>i * i \<le> n\<close>;
  the outer \<open>while (true)\<close> loop has no bound in the source.
\<close>

function trial_division :: "nat \<Rightarrow> nat \<Rightarrow> bool" where
  "trial_division n i =
     (if i * i \<le> n then (if n mod i = 0 then False else trial_division n (i + 1)) else True)"
  by pat_completeness auto
termination
proof (relation "measure (\<lambda>(n, i). Suc n - i)")
  show "wf (measure (\<lambda>(n, i). Suc n - i))" by simp
next
  fix n i :: nat
  assume a: "i * i \<le> n" "n mod i \<noteq> 0"
  have "i \<le> i * i" by (cases i) simp_all
  from this a(1) have "i \<le> n" by (rule le_trans)
  then show "((n, i + 1), (n, i)) \<in> measure (\<lambda>(n, i). Suc n - i)" by simp
qed

declare trial_division.simps [simp del]

partial_function (option) nextPrime :: "nat \<Rightarrow> nat option" where
  "nextPrime n = (if trial_division n 2 then Some n else nextPrime (n + 1))"

declare nextPrime.simps [code]

text \<open>
  The collision loop, written out twice in the source with the same text (in
  \<open>insert\<close>, lines 2064-2067, and in \<open>retrieve\<close>, lines 2077-2080):
  \<open>while (table[idx].used && table[idx].name != name) { idx = (idx + step) % currentSize; step++; }\<close>.
  It has no bound; not returning is \<open>None\<close>. In C++ \<open>idx\<close> and \<open>step\<close> are \<open>int\<close>s,
  here they are naturals. A run of the loop that ends does so in fewer than
  \<open>2 * cap\<close> rounds (lemma \<open>probe_returns_within\<close>), so with the capacities 53 and
  107 \<open>step\<close> stays below 215 and every result \<open>Some idx\<close> is the slot the C++ loop
  stops at. A loop that never meets its exit condition is \<open>None\<close>; in C++ it runs
  until \<open>idx + step\<close> overflows, after more than \<open>2^31\<close> rounds, which is undefined:
  the code has no defined result there, and the model gives none.
\<close>

partial_function (option) probe :: "HashNode list \<Rightarrow> nat \<Rightarrow> string \<Rightarrow> nat \<Rightarrow> nat \<Rightarrow> nat option" where
  "probe tbl cap key idx step =
     (if used (tbl ! idx) \<and> name (tbl ! idx) \<noteq> key
      then probe tbl cap key ((idx + step) mod cap) (step + 1)
      else Some idx)"

declare probe.simps [code]

text \<open>\<open>vector::resize\<close> to \<open>n\<close> elements: new elements are default-constructed.\<close>

definition resize :: "nat \<Rightarrow> HashNode list \<Rightarrow> HashNode list" where
  "resize n tbl = take n tbl @ replicate (n - length tbl) blank_node"

text \<open>
  The \<open>for\<close> loop of \<open>rehash\<close> over the copied old table, with the function it
  calls for each used node (the table's own \<open>insert\<close>) as a parameter.
\<close>

primrec reinsert_used :: "(DynamicInventoryTable \<Rightarrow> string \<Rightarrow> InventoryItem \<Rightarrow> DynamicInventoryTable option) \<Rightarrow> HashNode list \<Rightarrow> DynamicInventoryTable \<Rightarrow> DynamicInventoryTable option" where
  "reinsert_used ins [] s = Some s"
| "reinsert_used ins (nd # nds) s =
     (if used nd then Option.bind (ins s (name nd) (item nd)) (reinsert_used ins nds)
      else reinsert_used ins nds s)"

text \<open>
  \<open>rehash\<close>: the old table is copied, \<open>currentSize\<close> becomes the next prime from twice
  its value, the table is resized \<^emph>\<open>in place\<close> (\<open>table.resize(currentSize)\<close> keeps the
  old slots and their \<open>used\<close> flags), \<open>itemCount\<close> is set to 0, every used node of
  the copy is inserted again, and the new size is logged.
\<close>

definition rehash_with :: "(DynamicInventoryTable \<Rightarrow> string \<Rightarrow> InventoryItem \<Rightarrow> DynamicInventoryTable option) \<Rightarrow> DynamicInventoryTable \<Rightarrow> DynamicInventoryTable option" where
  "rehash_with ins s =
     (let oldTable = table s; oldSize = currentSize s in
      Option.bind (nextPrime (currentSize s * 2)) (\<lambda>p.
      Option.bind (reinsert_used ins (map (\<lambda>i. oldTable ! i) [0..<oldSize])
                     (s\<lparr>table := resize p (table s), currentSize := p, itemCount := 0\<rparr>)) (\<lambda>s'.
      Some (s'\<lparr>resizeLog := resizeLog s' @ [currentSize s']\<rparr>))))"

text \<open>The three assignments that end \<open>insert\<close>, with the count raised for a slot that was unused.\<close>

definition store_at :: "nat \<Rightarrow> string \<Rightarrow> InventoryItem \<Rightarrow> DynamicInventoryTable \<Rightarrow> DynamicInventoryTable" where
  "store_at idx key itm s =
     s\<lparr>table := (table s)[idx := \<lparr>name = key, item = itm, used = True\<rparr>],
       itemCount := (if used (table s ! idx) then itemCount s else itemCount s + 1)\<rparr>"

text \<open>
  The test \<open>(double)itemCount / currentSize >= 0.7\<close> is written on integers as
  \<open>10 * itemCount \<ge> 7 * currentSize\<close>. For 32-bit counts the two agree: the quotient
  of two such integers that is below 7/10 is below it by at least \<open>1 / (10 * currentSize)\<close>,
  far more than the rounding of the division and of the constant \<open>0.7\<close>.
\<close>

definition over_threshold :: "DynamicInventoryTable \<Rightarrow> bool" where
  "over_threshold s = (10 * itemCount s \<ge> 7 * currentSize s)"

lemma reinsert_used_mono [partial_function_mono]:
  assumes "\<And>s k v. mono_option (\<lambda>f. F f s k v)"
  shows "mono_option (\<lambda>f. reinsert_used (F f) nds s)"
proof (induction nds arbitrary: s)
  case Nil
  show ?case by (simp add: option.const_mono)
next
  case (Cons nd nds)
  show ?case by (auto intro!: partial_function_mono assms Cons)
qed

lemma rehash_with_mono [partial_function_mono]:
  assumes "\<And>s k v. mono_option (\<lambda>f. F f s k v)"
  shows "mono_option (\<lambda>f. rehash_with (F f) s)"
  unfolding rehash_with_def Let_def
  by (intro partial_function_mono assms)

text \<open>\<open>insert\<close> (named \<open>insert_tbl\<close> here, since \<open>insert\<close> is HOL's set insertion).\<close>

partial_function (option) insert_tbl :: "DynamicInventoryTable \<Rightarrow> string \<Rightarrow> InventoryItem \<Rightarrow> DynamicInventoryTable option" where
  "insert_tbl s key itm =
     Option.bind (if over_threshold s then rehash_with insert_tbl s else Some s) (\<lambda>s1.
     Option.bind (probe (table s1) (currentSize s1) key (hash key (currentSize s1)) 1) (\<lambda>idx.
     Some (store_at idx key itm s1)))"

declare insert_tbl.simps [code]


text \<open>A run of inserts, in order; \<open>None\<close> as soon as one of them does not return.\<close>

primrec insert_all :: "(string \<times> InventoryItem) list \<Rightarrow> DynamicInventoryTable \<Rightarrow> DynamicInventoryTable option" where
  "insert_all [] s = Some s"
| "insert_all (kv # kvs) s = Option.bind (insert_tbl s (fst kv) (snd kv)) (insert_all kvs)"

text \<open>
  The loop condition of the collision loop at a slot, and the first \<open>n\<close> rounds of
  the loop: \<open>Some (idx', step')\<close> is the loop state after \<open>n\<close> rounds in each of which
  the condition held, \<open>None\<close> says that the loop left before.
\<close>

definition blocked :: "HashNode list \<Rightarrow> string \<Rightarrow> nat \<Rightarrow> bool" where
  "blocked tbl key idx = (used (tbl ! idx) \<and> name (tbl ! idx) \<noteq> key)"

primrec probe_rounds :: "nat \<Rightarrow> HashNode list \<Rightarrow> nat \<Rightarrow> string \<Rightarrow> nat \<Rightarrow> nat \<Rightarrow> (nat \<times> nat) option" where
  "probe_rounds 0 tbl cap key idx step = Some (idx, step)"
| "probe_rounds (Suc n) tbl cap key idx step =
     (if blocked tbl key idx then probe_rounds n tbl cap key ((idx + step) mod cap) (step + 1) else None)"

text \<open>Concrete inputs: an item, 39 keys with 39 different home slots, and 28 keys with one home slot.\<close>

definition stock :: "int \<Rightarrow> InventoryItem" where
  "stock q = \<lparr>item_name = [], quantity = q, item_unit = ''kg'', reorderLevel = 20\<rparr>"

definition entries :: "string list \<Rightarrow> (string \<times> InventoryItem) list" where
  "entries ks = map (\<lambda>k. (k, stock 1)) ks"

definition spread_keys :: "string list" where
  "spread_keys = map (\<lambda>c. [c]) ''ABCDEFGHIJKLMNOPQRSTUVWXYZabcdefghijklm''"

definition colliding_keys :: "string list" where
  "colliding_keys =
     [''Az'', ''By'', ''Cx'', ''Dw'', ''Ev'', ''Fu'', ''Gt'', ''Hs'', ''Ir'', ''Jq'', ''Kp'', ''Lo'', ''Mn'',
      ''Nm'', ''Ol'', ''Pk'', ''Qj'', ''Ri'', ''Sh'', ''Tg'', ''Uf'', ''Ve'', ''Wd'', ''Xc'', ''Yb'', ''Za'',
      ''zA'']"

definition colliding_table :: DynamicInventoryTable where
  "colliding_table = the (insert_all (entries colliding_keys) new_table)"

text \<open>
  The state of a table that has not been resized and holds exactly the keys \<open>K\<close>
  (used in the proof about the first rehash).
\<close>

definition holds_keys :: "DynamicInventoryTable \<Rightarrow> string set \<Rightarrow> bool" where
  "holds_keys s K =
     (currentSize s = 53 \<and> length (table s) = 53 \<and> resizeLog s = [] \<and> finite K \<and>
      itemCount s = card K \<and> (\<forall>nd \<in> set (table s). used nd \<longrightarrow> name nd \<in> K))"

text \<open>
  The number of occupied slots of a table, and the load factor of the specification,
  \<open>occupied_count / capacity < 0.7\<close>, in tenths.
\<close>

definition used_count :: "HashNode list \<Rightarrow> nat" where
  "used_count tbl = length (filter used tbl)"

definition occupied :: "DynamicInventoryTable \<Rightarrow> nat" where
  "occupied s = used_count (table s)"

definition load_below_limit :: "DynamicInventoryTable \<Rightarrow> bool" where
  "load_below_limit s = (10 * occupied s < 7 * currentSize s)"

text \<open>
  The slot that the collision loop looks at after \<open>n\<close> rounds, started at slot \<open>idx\<close>
  with step \<open>step\<close>: \<open>tri n\<close> is \<open>0 + 1 + ... + (n - 1)\<close>, so from the home slot with
  step 1 this is \<open>(home + 1 + 2 + ... + n) mod cap\<close>.
\<close>

primrec tri :: "nat \<Rightarrow> nat" where
  "tri 0 = 0"
| "tri (Suc n) = tri n + n"

definition slot_after :: "nat \<Rightarrow> nat \<Rightarrow> nat \<Rightarrow> nat \<Rightarrow> nat" where
  "slot_after cap idx step n = (idx + n * step + tri n) mod cap"






section \<open>Customer index: AVL tree (lines 1107-1248)\<close>

text \<open>
  A \<open>BSTNode\<close> owns its two children, and the tree is reached only through
  \<open>customerBST\<close>, so a pointer to a node is modelled as the node itself and
  \<open>nullptr\<close> as \<open>Null\<close>. The fields of \<open>Node\<close> are, in order: \<open>key\<close>, \<open>name\<close>,
  \<open>left\<close>, \<open>right\<close> and the stored \<open>height\<close> (a C++ \<open>int\<close>).
\<close>

datatype BSTNode = Null | Node int string BSTNode BSTNode int

fun height :: "BSTNode \<Rightarrow> int" where
  "height Null = 0"
| "height (Node k n l r h) = h"

fun balanceFactor :: "BSTNode \<Rightarrow> int" where
  "balanceFactor Null = 0"
| "balanceFactor (Node k n l r h) = height l - height r"

definition createNode :: "int \<Rightarrow> string \<Rightarrow> BSTNode" where
  "createNode key nm = Node key nm Null Null 1"

text \<open>
  The rotations read \<open>y->left\<close> (\<open>x->right\<close>) and its fields without a test; on a
  node without that child the C++ dereferences a null pointer. That outcome is
  \<open>None\<close>.
\<close>

fun rightRotate :: "BSTNode \<Rightarrow> BSTNode option" where
  "rightRotate (Node yk yn (Node xk xn xl T2 xh) yr yh) =
     (let y' = Node yk yn T2 yr (max (height T2) (height yr) + 1)
      in Some (Node xk xn xl y' (max (height xl) (height y') + 1)))"
| "rightRotate y = None"

fun leftRotate :: "BSTNode \<Rightarrow> BSTNode option" where
  "leftRotate (Node xk xn xl (Node yk yn T2 yr yh) xh) =
     (let x' = Node xk xn xl T2 (max (height xl) (height T2) + 1)
      in Some (Node yk yn x' yr (max (height x') (height yr) + 1)))"
| "leftRotate x = None"

text \<open>
  The part of \<open>insertAVL\<close> after the recursive call, for the node with key \<open>k\<close>, name
  \<open>n\<close> and the children \<open>l\<close> and \<open>r\<close> as they are then: the height is stored, and the
  four tests run in the order of the source. \<open>node->left->key\<close> is read only when
  \<open>bf > 1\<close>, and \<open>node->right->key\<close> only when \<open>bf < -1\<close> (the \<open>&&\<close> does not
  evaluate its right side otherwise); with \<open>bf > 1\<close> the second and fourth test are
  false, with \<open>bf < -1\<close> the first and third.
\<close>

definition rebalance :: "int \<Rightarrow> int \<Rightarrow> string \<Rightarrow> BSTNode \<Rightarrow> BSTNode \<Rightarrow> BSTNode option" where
  "rebalance key k n l r =
     (let h = 1 + max (height l) (height r);
          node = Node k n l r h;
          bf = balanceFactor node
      in if bf > 1 then
           (case l of
              Null \<Rightarrow> None
            | Node lk ln ll lr lh \<Rightarrow>
                if key < lk then rightRotate node
                else if key > lk then Option.bind (leftRotate l) (\<lambda>l'. rightRotate (Node k n l' r h))
                else Some node)
         else if bf < - 1 then
           (case r of
              Null \<Rightarrow> None
            | Node rk rn rl rr rh \<Rightarrow>
                if key > rk then leftRotate node
                else if key < rk then Option.bind (rightRotate r) (\<lambda>r'. leftRotate (Node k n l r' h))
                else Some node)
         else Some node)"

fun insertAVL :: "BSTNode \<Rightarrow> int \<Rightarrow> string \<Rightarrow> BSTNode option" where
  "insertAVL Null key nm = Some (createNode key nm)"
| "insertAVL (Node k n l r h) key nm =
     (if key < k then Option.bind (insertAVL l key nm) (\<lambda>l'. rebalance key k n l' r)
      else if key > k then Option.bind (insertAVL r key nm) (\<lambda>r'. rebalance key k n l r')
      else Some (Node k n l r h))"

text \<open>\<open>inorderBST\<close> prints \<open>key: name\<close> for the left subtree, the node, the right subtree.\<close>

fun inorderBST :: "BSTNode \<Rightarrow> (int \<times> string) list" where
  "inorderBST Null = []"
| "inorderBST (Node k n l r h) = inorderBST l @ [(k, n)] @ inorderBST r"

text \<open>
  A sequence of inserts into the tree: \<open>customerBST = insertAVL(customerBST, id, name)\<close>
  for each pair in turn.
\<close>

fun insert_seq :: "(int \<times> string) list \<Rightarrow> BSTNode \<Rightarrow> BSTNode option" where
  "insert_seq [] t = Some t"
| "insert_seq ((key, nm) # kvs) t = Option.bind (insertAVL t key nm) (insert_seq kvs)"

text \<open>
  The height of a tree, counted on the tree itself (an empty tree has height 0), and
  the balance condition of the claim on every node. \<open>avl\<close> adds that the stored
  heights are the counted ones.
\<close>

fun ht :: "BSTNode \<Rightarrow> int" where
  "ht Null = 0"
| "ht (Node k n l r h) = 1 + max (ht l) (ht r)"

fun balanced :: "BSTNode \<Rightarrow> bool" where
  "balanced Null = True"
| "balanced (Node k n l r h) = (balanced l \<and> balanced r \<and> \<bar>ht l - ht r\<bar> \<le> 1)"

fun avl :: "BSTNode \<Rightarrow> bool" where
  "avl Null = True"
| "avl (Node k n l r h) = (avl l \<and> avl r \<and> \<bar>ht l - ht r\<bar> \<le> 1 \<and> h = 1 + max (ht l) (ht r))"

definition keys :: "BSTNode \<Rightarrow> int list" where
  "keys t = map fst (inorderBST t)"

text \<open>
  What holds of a tree that an insert of \<open>key\<close> has made higher: it leans to the side
  the key went to, or it is the new leaf.
\<close>

fun leans :: "int \<Rightarrow> BSTNode \<Rightarrow> bool" where
  "leans key Null = False"
| "leans key (Node k n l r h) =
     ((key < k \<and> ht l = ht r + 1) \<or> (key > k \<and> ht r = ht l + 1) \<or> (key = k \<and> l = Null \<and> r = Null))"

section \<open>Properties of the delivery graph and the tour\<close>

lemma set_weight_below:
  assumes "weights_below m" "w < 1000000000"
  shows "weights_below (set_weight i j w m)"
proof (cases "i < length m")
  case False
  then show ?thesis using assms by (simp add: set_weight_def list_update_beyond)
next
  case True
  then have row: "m ! i \<in> set m" by simp
  have "set ((m ! i)[j := w]) \<subseteq> insert w (set (m ! i))"
    by (rule set_update_subset_insert)
  then have r: "length ((m ! i)[j := w]) = MAX_LOCATIONS \<and> (\<forall>x \<in> set ((m ! i)[j := w]). x < 1000000000)"
    using assms row by (auto simp: weights_below_def)
  have "set (m[i := (m ! i)[j := w]]) \<subseteq> insert ((m ! i)[j := w]) (set m)"
    by (rule set_update_subset_insert)
  then show ?thesis
    using r assms(1) unfolding weights_below_def set_weight_def by auto
qed

lemma init_row_below:
  "weights_below (deliveryGraph g) \<Longrightarrow> weights_below (deliveryGraph (init_row nodes i g))"
proof -
  assume a: "weights_below (deliveryGraph g)"
  have "weights_below (deliveryGraph g') \<Longrightarrow> weights_below (deliveryGraph (fold (\<lambda>j g. g\<lparr>deliveryGraph := set_weight i j (if i = j then 0 else 99999) (deliveryGraph g)\<rparr>) js g'))" for js g'
    by (induction js arbitrary: g') (simp_all add: set_weight_below)
  then show ?thesis using a by (simp add: init_row_def Let_def)
qed

lemma initDeliveryGraph_below:
  assumes "weights_below (deliveryGraph g)"
  shows "weights_below (deliveryGraph (initDeliveryGraph nodes g))"
proof -
  have "weights_below (deliveryGraph g') \<Longrightarrow> weights_below (deliveryGraph (fold (init_row nodes) is g'))" for "is" g'
    by (induction "is" arbitrary: g') (auto intro: init_row_below)
  then show ?thesis using assms by (simp add: initDeliveryGraph_def)
qed

lemma addDeliveryEdge_below:
  "weights_below (deliveryGraph g) \<Longrightarrow> w < 1000000000 \<Longrightarrow>
   weights_below (deliveryGraph (addDeliveryEdge u v w g))"
  by (simp add: addDeliveryEdge_def Let_def set_weight_below)

lemma build_graph_below:
  assumes "\<forall>(u, v, w) \<in> set es. w < 1000000000"
  shows "weights_below (deliveryGraph (build_graph n es))"
proof -
  have "weights_below (deliveryGraph g) \<Longrightarrow>
        weights_below (deliveryGraph (fold (\<lambda>(u, v, w). addDeliveryEdge u v w) es g))" for g
    using assms
  proof (induction es arbitrary: g)
    case Nil then show ?case by simp
  next
    case (Cons e es)
    obtain u v w where e: "e = (u, v, w)" by (cases e) auto
    have "weights_below (deliveryGraph (addDeliveryEdge u v w g))"
      using Cons.prems by (auto simp: e intro: addDeliveryEdge_below)
    then show ?case using Cons.IH[of "addDeliveryEdge u v w g"] Cons.prems(2) by (simp add: e)
  qed
  moreover have "weights_below (deliveryGraph graph0)"
    by (simp add: graph0_def weights_below_def)
  ultimately show ?thesis by (simp add: build_graph_def initDeliveryGraph_below)
qed

lemma weights_below_nth:
  "weights_below m \<Longrightarrow> a < MAX_LOCATIONS \<Longrightarrow> b < MAX_LOCATIONS \<Longrightarrow> m ! a ! b < 1000000000"
  unfolding weights_below_def by (metis nth_mem)

lemma nearest_fold:
  "case fold (nearest_step m visited current) [0..<k] (None, 1000000000) of
     (None, d) \<Rightarrow> d = 1000000000 \<and> (\<forall>j<k. visited ! j \<or> \<not> m ! current ! j < 1000000000)
   | (Some x, d) \<Rightarrow> x < k \<and> \<not> visited ! x \<and> d = m ! current ! x"
proof (induction k)
  case 0 then show ?case by simp
next
  case (Suc k)
  then show ?case
    by (auto simp: nearest_step_def less_Suc_eq split: prod.splits option.splits)
qed

lemma find_nearest_Some:
  assumes "j < n" "\<not> visited ! j" "\<forall>j<n. m ! current ! j < 1000000000"
  shows "\<exists>x. find_nearest m visited current n = Some x \<and> x < n \<and> \<not> visited ! x"
  using nearest_fold[where m=m and visited=visited and current=current and k=n] assms
  by (auto simp: find_nearest_def split: prod.splits option.splits)

lemma tsp_step_inv:
  assumes inv: "tour_inv n start k st" and k: "0 < k" "k < n"
    and m: "\<forall>a<n. \<forall>b<n. m ! a ! b < 1000000000"
  shows "tour_inv n start (Suc k) (tsp_step m n st)"
proof -
  obtain route visited current where st: "st = (route, visited, current)" by (cases st) auto
  from inv st have d: "distinct route" and sub: "set route \<subseteq> {0..<n}" and len: "length route = k"
    and hd: "hd route = start" and lv: "length visited = n" and cur: "current < n"
    and vis: "\<forall>j<n. visited ! j \<longleftrightarrow> j \<in> set route"
    by (auto simp: tour_inv_def)
  have "card (set route) = k" using d len by (simp add: distinct_card)
  then have "set route \<noteq> {0..<n}" using k by auto
  then have "\<exists>j. j < n \<and> j \<notin> set route" using sub by (auto simp: set_eq_iff subset_iff)
  then obtain j where j: "j < n" "j \<notin> set route" by blast
  then have "\<not> visited ! j" using vis by simp
  moreover have "\<forall>j<n. m ! current ! j < 1000000000" using m cur by simp
  ultimately obtain x where x: "find_nearest m visited current n = Some x" "x < n" "\<not> visited ! x"
    using find_nearest_Some[OF j(1), of visited m current] by blast
  then have xr: "x \<notin> set route" using vis by simp
  have "route \<noteq> []" using len k by auto
  then show ?thesis
    using x xr d sub len hd lv vis
    by (auto simp: tour_inv_def tsp_step_def st nth_list_update)
qed

lemma tsp_loop_inv:
  assumes "start < n" "\<forall>a<n. \<forall>b<n. m ! a ! b < 1000000000" "1 \<le> k" "k \<le> n"
  shows "tour_inv n start k (fold (\<lambda>i. tsp_step m n) [1..<k] ([start], (replicate n False)[start := True], start))"
  using assms(3,4)
proof (induction k)
  case 0 then show ?case by simp
next
  case (Suc k)
  show ?case
  proof (cases "k = 0")
    case True
    then show ?thesis using assms(1) by (auto simp: tour_inv_def nth_list_update)
  next
    case False
    then have "tour_inv n start k (fold (\<lambda>i. tsp_step m n) [1..<k] ([start], (replicate n False)[start := True], start))"
      using Suc by simp
    then show ?thesis using tsp_step_inv[OF _ _ _ assms(2)] False Suc.prems by simp
  qed
qed

text \<open>
  Claim C5, as the code has it. On the 6-vertex sample graph the nearest-neighbour
  tour from vertex 0 is 0, 1, 2, 5, 4, 3 and then back to 0. The closing leg (3, 0)
  has no edge in the matrix; \<open>displayTSPRoute\<close> prints it like every other leg, with
  the matrix entry 99999 as its distance, and adds that number to the printed total,
  100033. The tour code has no separate outcome for a missing edge.
\<close>

theorem tour_sample_scenario:
  "tspApproximation sample_graph 0 6 = [0, 1, 2, 5, 4, 3, 0] \<and>
   displayTSPRoute sample_graph (tspApproximation sample_graph 0 6) =
     ([(0, 1, 7), (1, 2, 10), (2, 5, 2), (5, 4, 9), (4, 3, 6), (3, 0, 99999)], 100033)"
  by code_simp

text \<open>
  Claim C5 as stated fails: the closing leg of that tour is reported with the
  finite distance 99999, and the total 100033 printed after it contains it.
\<close>

theorem tour_closing_leg_counterexample:
  "last (fst (displayTSPRoute sample_graph (tspApproximation sample_graph 0 6))) = (3, 0, 99999) \<and>
   snd (displayTSPRoute sample_graph (tspApproximation sample_graph 0 6)) = 7 + 10 + 2 + 9 + 6 + 99999"
  by code_simp

text \<open>
  Claim C10, amended. For \<open>1 \<le> n \<le> 20\<close>, a start vertex below \<open>n\<close> and a graph built
  by \<open>init(n)\<close> and any list of \<open>addEdge(u, v, w)\<close> calls on vertices below \<open>n\<close> with
  weights below 1000000000 (connected or not), the tour has \<open>n + 1\<close> vertices, begins
  and ends at the start vertex, and up to the repeated start holds every vertex of
  \<open>[0, n)\<close> exactly once.
\<close>

theorem tour_visits_every_vertex:
  assumes "1 \<le> n" "n \<le> MAX_LOCATIONS" "start < n"
    and "\<forall>(u, v, w) \<in> set es. u < n \<and> v < n \<and> w < 1000000000"
  shows "let r = tspApproximation (build_graph n es) start n in
           length r = n + 1 \<and> hd r = start \<and> last r = start \<and>
           distinct (butlast r) \<and> set (butlast r) = {0..<n}"
proof -
  have "weights_below (deliveryGraph (build_graph n es))"
    using build_graph_below[of es n] assms(4) by fastforce
  then have b: "\<forall>a<n. \<forall>b<n. deliveryGraph (build_graph n es) ! a ! b < 1000000000"
    using assms(2) by (auto intro: weights_below_nth)
  define st where "st = fold (\<lambda>i. tsp_step (deliveryGraph (build_graph n es)) n) [1..<n] ([start], (replicate n False)[start := True], start)"
  have inv: "tour_inv n start n st"
    unfolding st_def using tsp_loop_inv[OF assms(3) b assms(1)] by simp
  obtain route visited current where s: "st = (route, visited, current)" by (cases st) auto
  from inv s have d: "distinct route" and sub: "set route \<subseteq> {0..<n}" and len: "length route = n"
    and hd: "hd route = start" by (auto simp: tour_inv_def)
  have "card (set route) = n" using d len by (simp add: distinct_card)
  then have "set route = {0..<n}" using sub by (simp add: card_subset_eq)
  moreover have "route \<noteq> []" using len assms(1) by auto
  ultimately show ?thesis
    unfolding tspApproximation_def Let_def st_def[symmetric] s
    using d len hd by simp
qed

text \<open>The sample graph and start vertex 0 satisfy the hypotheses of the theorem.\<close>

theorem tour_visits_every_vertex_witness:
  "let r = tspApproximation (build_graph 6 sample_edges) 0 6 in
           length r = 6 + 1 \<and> hd r = 0 \<and> last r = 0 \<and>
           distinct (butlast r) \<and> set (butlast r) = {0..<6}"
  using tour_visits_every_vertex[of 6 0 sample_edges] by (simp add: MAX_LOCATIONS_def sample_edges_def)

text \<open>
  Claim C10 as stated fails for an edge weight of 1000000000 or more: the search for
  the nearest vertex starts from \<open>minDist = 1e9\<close> and takes only strictly smaller
  entries, so the vertex behind such an edge is never chosen. With two vertices
  joined by an edge of weight 1000000000 the tour from 0 is 0, 0: two vertices
  instead of three, and vertex 1 is missing.
\<close>

theorem tour_heavy_edge_counterexample:
  "tspApproximation (build_graph 2 [(0, 1, 1000000000)]) 0 2 = [0, 0]"
  by code_simp

text \<open>
  Claim C4 fails on the code. Three locations, one edge \<open>addEdge(0, 1, 5)\<close>: location 2
  has an empty adjacency list, so no path leads to it from location 0. The matrix
  holds 99999 for the missing edges, \<open>dijkstraOptimized\<close> relaxes over every non-zero
  matrix entry, and the report for location 2 is the distance 99999 reached via
  location 0. The marker the report prints for \<open>dist[i] == 1e9\<close> (the number -1) is
  not reached.
\<close>

theorem dijkstra_isolated_vertex_reported_finite:
  "adjList (build_graph 3 [(0, 1, 5)]) ! 2 = [] \<and>
   dijkstraOptimized (build_graph 3 [(0, 1, 5)]) 0 3 = Some [(0, 0, - 1), (1, 5, 0), (2, 99999, 0)]"
  by code_simp

text \<open>Scenario C of the specification: on the connected sample graph the distances from 0 are 0, 7, 9, 20, 20, 11.\<close>

lemma dijkstra_sample_scenario:
  "dijkstraOptimized sample_graph 0 6 =
     Some [(0, 0, - 1), (1, 7, 0), (2, 9, 0), (3, 20, 2), (4, 20, 5), (5, 11, 2)]"
  by code_simp

section \<open>Properties of the order heap\<close>

lemma heap_except_swap:
  assumes he: "heap_except h n i" and i: "0 < i" "i < n"
    and lt: "\<not> priority (h ((i - 1) div 2)) \<ge> priority (h i)"
  shows "heap_except (h((i - 1) div 2 := h i, i := h ((i - 1) div 2))) n ((i - 1) div 2)"
proof -
  define p where "p = (i - 1) div 2"
  define h' where "h' = h(p := h i, i := h p)"
  have pi: "p < i" using i by (simp add: p_def)
  have par: "(i - 1) div 2 = p" by (simp add: p_def)
  have A: "\<And>j. 0 < j \<Longrightarrow> j < n \<Longrightarrow> j \<noteq> i \<Longrightarrow> priority (h ((j - 1) div 2)) \<ge> priority (h j)"
    using he by (simp add: heap_except_def)
  have B: "\<And>j. 0 < j \<Longrightarrow> j < n \<Longrightarrow> (j - 1) div 2 = i \<Longrightarrow> priority (h p) \<ge> priority (h j)"
    using he i by (simp add: heap_except_def p_def)
  have lt': "priority (h p) < priority (h i)" using lt by (simp add: p_def)
  have 1: "priority (h' ((j - 1) div 2)) \<ge> priority (h' j)" if j: "0 < j" "j < n" "j \<noteq> p" for j
  proof -
    consider "j = i" | "j \<noteq> i" "(j - 1) div 2 = i" | "j \<noteq> i" "(j - 1) div 2 = p" | "j \<noteq> i" "(j - 1) div 2 \<noteq> i" "(j - 1) div 2 \<noteq> p"
      by blast
    then show ?thesis
    proof cases
      case 1
      then show ?thesis using lt' pi par by (simp add: h'_def)
    next
      case 2
      then have "j \<noteq> p" "j \<noteq> i" using j by auto
      then show ?thesis using B[OF j(1,2) 2(2)] 2 pi by (simp add: h'_def)
    next
      case 3
      then show ?thesis using A[OF j(1,2) 3(1)] lt' j(3) pi by (simp add: h'_def)
    next
      case 4
      then show ?thesis using A[OF j(1,2) 4(1)] j(3) by (simp add: h'_def)
    qed
  qed
  have 2: "priority (h' ((p - 1) div 2)) \<ge> priority (h' j)"
    if j: "0 < j" "j < n" "(j - 1) div 2 = p" "0 < p" for j
  proof -
    have pp: "(p - 1) div 2 < p" using j(4) by simp
    have pn: "p < n" using pi i by simp
    have hp: "priority (h ((p - 1) div 2)) \<ge> priority (h p)"
      using A[OF j(4) pn] pi by simp
    have e: "h' ((p - 1) div 2) = h ((p - 1) div 2)" using pp pi by (simp add: h'_def)
    show ?thesis
    proof (cases "j = i")
      case True
      then show ?thesis using hp e by (simp add: h'_def)
    next
      case False
      have "j \<noteq> p" using j by auto
      then have "h' j = h j" using False by (simp add: h'_def)
      moreover have "priority (h p) \<ge> priority (h j)" using A[OF j(1,2) False] j(3) by simp
      ultimately show ?thesis using hp e by simp
    qed
  qed
  show ?thesis
    unfolding heap_except_def p_def[symmetric] h'_def[symmetric]
    using 1 2 by blast
qed

lemma orderHeapifyUp_heap:
  "i < n \<Longrightarrow> heap_except h n i \<Longrightarrow> is_heap (orderHeapifyUp i h) n"
proof (induction i arbitrary: h rule: less_induct)
  case (less index)
  define p where "p = (index - 1) div 2"
  show ?case
  proof (cases "index > 0")
    case False
    then have "orderHeapifyUp index h = h" by (simp add: orderHeapifyUp.simps)
    then show ?thesis using less.prems False by (auto simp: heap_except_def is_heap_def)
  next
    case True
    show ?thesis
    proof (cases "priority (h p) \<ge> priority (h index)")
      case ge: True
      have "is_heap h n"
        unfolding is_heap_def
      proof (intro allI impI)
        fix j assume "0 < j \<and> j < n"
        then show "priority (h j) \<le> priority (h ((j - 1) div 2))"
          using ge less.prems(2) by (cases "j = index") (auto simp: heap_except_def p_def)
      qed
      moreover have "orderHeapifyUp index h = h"
        using True ge by (subst orderHeapifyUp.simps) (simp add: Let_def p_def)
      ultimately show ?thesis by simp
    next
      case lt: False
      have "heap_except (h(p := h index, index := h p)) n p"
        using heap_except_swap[OF less.prems(2) True less.prems(1)] lt by (simp add: p_def)
      moreover have "p < n" "p < index" using less.prems(1) True by (simp_all add: p_def)
      ultimately have "is_heap (orderHeapifyUp p (h(p := h index, index := h p))) n"
        using less.IH by blast
      moreover have "orderHeapifyUp index h = orderHeapifyUp p (h(p := h index, index := h p))"
        using True lt by (subst orderHeapifyUp.simps) (simp add: Let_def p_def)
      ultimately show ?thesis by simp
    qed
  qed
qed

lemma heap_except_append:
  "is_heap h n \<Longrightarrow> heap_except (h(n := ord)) (Suc n) n"
  unfolding is_heap_def heap_except_def
proof (intro conjI allI impI)
  fix j assume h: "\<forall>i. 0 < i \<and> i < n \<longrightarrow> priority (h i) \<le> priority (h ((i - 1) div 2))"
    and j: "0 < j \<and> j < Suc n \<and> j \<noteq> n"
  then have "j < n" "(j - 1) div 2 < n" by auto
  then show "priority ((h(n := ord)) j) \<le> priority ((h(n := ord)) ((j - 1) div 2))"
    using h j by simp
next
  fix j assume "0 < j \<and> j < Suc n \<and> (j - 1) div 2 = n \<and> 0 < n"
  then have False by auto
  then show "priority ((h(n := ord)) j) \<le> priority ((h(n := ord)) ((n - 1) div 2))" ..
qed

text \<open>
  Claim C8. On a state that satisfies the max-heap property, a completed insert
  (the store at the end of the array followed by \<open>orderHeapifyUp\<close>) leaves a state in
  which every index \<open>i > 0\<close> below the new size has
  \<open>priority(parent(i)) \<ge> priority(i)\<close>, where \<open>parent(i) = (i - 1) div 2\<close>.
\<close>

theorem push_order_keeps_heap:
  assumes "is_heap (orderHeap s) (orderHeapSize s)" and "push_order ord s = Returns s'"
  shows "\<forall>i. 0 < i \<and> i < orderHeapSize s' \<longrightarrow>
           priority (orderHeap s' ((i - 1) div 2)) \<ge> priority (orderHeap s' i)"
proof -
  have lt: "orderHeapSize s < MAX_ORDERS"
    using assms(2) by (auto simp: push_order_def Let_def split: if_splits)
  then have s': "s' = \<lparr>orderHeap = orderHeapifyUp (orderHeapSize s) ((orderHeap s)(orderHeapSize s := ord)),
                       orderHeapSize = orderHeapSize s + 1\<rparr>"
    using assms(2) by (simp add: push_order_def Let_def)
  have "is_heap (orderHeapifyUp (orderHeapSize s) ((orderHeap s)(orderHeapSize s := ord))) (Suc (orderHeapSize s))"
    by (rule orderHeapifyUp_heap) (simp_all add: heap_except_append assms(1))
  then show ?thesis by (simp add: s' is_heap_def)
qed

text \<open>
  A heap of two orders (priorities 7 and 5) receives an order of priority 9: the
  insert returns, the new order is sifted to the root, and cell 2 is below its parent.
\<close>

theorem push_order_keeps_heap_witness:
  "is_heap (orderHeap small_heap) (orderHeapSize small_heap) \<and>
   (\<exists>s'. push_order (mk_order 3 9) small_heap = Returns s' \<and> orderHeapSize s' = 3 \<and>
      priority (orderHeap s' 0) = 9 \<and>
      priority (orderHeap s' ((2 - 1) div 2)) \<ge> priority (orderHeap s' 2))"
proof -
  have h: "is_heap (orderHeap small_heap) (orderHeapSize small_heap)"
    by (auto simp: is_heap_def small_heap_def mk_order_def)
  define s' where "s' = \<lparr>orderHeap = orderHeapifyUp 2 ((orderHeap small_heap)(2 := mk_order 3 9)), orderHeapSize = 3\<rparr>"
  have r: "push_order (mk_order 3 9) small_heap = Returns s'"
    by (simp add: push_order_def small_heap_def MAX_ORDERS_def s'_def)
  have "priority (orderHeap s' 0) = 9"
    by (simp add: s'_def small_heap_def mk_order_def orderHeapifyUp.simps)
  moreover have "priority (orderHeap s' ((2 - 1) div 2)) \<ge> priority (orderHeap s' 2)"
    using push_order_keeps_heap[OF h r, THEN spec, of 2] by (simp add: s'_def)
  ultimately show ?thesis using h r by (auto simp: s'_def)
qed

text \<open>
  Claim C3 fails on the code at the capacity. With 300 orders stored, the insert of
  \<open>demoOrderManagement\<close> does not fail with a capacity outcome that leaves the
  stored items as they were: it has no test of the size, and performs the store
  \<open>orderHeap[300] = o\<close>, one cell past the end of the array.
\<close>

theorem push_order_at_capacity_overruns:
  "orderHeapSize full_heap = MAX_ORDERS \<and>
   push_order (mk_order 301 9) full_heap = ArrayOverrun 300"
  by (simp add: push_order_def full_heap_def MAX_ORDERS_def)

text \<open>Below the capacity the insert stores the order at the end and sifts it up.\<close>

lemma push_order_below_capacity:
  "orderHeapSize s < MAX_ORDERS \<Longrightarrow>
   push_order ord s = Returns \<lparr>orderHeap = orderHeapifyUp (orderHeapSize s) ((orderHeap s)(orderHeapSize s := ord)),
                                orderHeapSize = orderHeapSize s + 1\<rparr>"
  by (simp add: push_order_def Let_def)

section \<open>Properties of the resizing hash table\<close>

lemmas probe_induct = probe.raw_induct[rotated 1, consumes 1, case_names step]
lemmas nextPrime_induct = nextPrime.raw_induct[rotated 1, consumes 1, case_names step]

lemma nextPrime_ge: "nextPrime n = Some p \<Longrightarrow> n \<le> p"
proof (induction rule: nextPrime_induct)
  case (step nextPrime' n p)
  then show ?case by (auto split: if_splits dest: Suc_leD)
qed

lemma insert_tbl_below_threshold:
  "\<not> over_threshold s \<Longrightarrow>
   insert_tbl s key itm =
     Option.bind (probe (table s) (currentSize s) key (hash key (currentSize s)) 1)
       (\<lambda>idx. Some (store_at idx key itm s))"
  by (subst insert_tbl.simps) simp

lemma probe_stops:
  "probe tbl cap key idx step = Some j \<Longrightarrow> \<not> (used (tbl ! j) \<and> name (tbl ! j) \<noteq> key)"
proof (induction rule: probe_induct)
  case (step probe' tbl cap key idx step j)
  then show ?case by (auto split: if_splits)
qed

lemma probe_in_range:
  "probe tbl cap key idx step = Some j \<Longrightarrow> idx < cap \<Longrightarrow> j < cap"
proof (induction rule: probe_induct)
  case (step probe' tbl cap key idx step j)
  then show ?case by (auto split: if_splits)
qed

lemma store_at_fields:
  "currentSize (store_at idx key itm s) = currentSize s"
  "resizeLog (store_at idx key itm s) = resizeLog s"
  "length (table (store_at idx key itm s)) = length (table s)"
  "itemCount (store_at idx key itm s) \<le> Suc (itemCount s)"
  "itemCount s \<le> itemCount (store_at idx key itm s)"
  by (simp_all add: store_at_def)

lemma insert_tbl_below_fields:
  assumes "\<not> over_threshold s" "insert_tbl s key itm = Some s'"
  shows "currentSize s' = currentSize s \<and> resizeLog s' = resizeLog s \<and>
         length (table s') = length (table s) \<and> itemCount s' \<le> itemCount s + 1 \<and>
         itemCount s \<le> itemCount s'"
  using assms(2) unfolding insert_tbl_below_threshold[OF assms(1)]
  by (auto simp: store_at_fields split: bind_splits)

lemma reinsert_used_fields:
  "reinsert_used insert_tbl nds s = Some s' \<Longrightarrow>
   10 * (itemCount s + length nds) < 7 * currentSize s \<Longrightarrow>
   currentSize s' = currentSize s \<and> resizeLog s' = resizeLog s \<and>
   length (table s') = length (table s) \<and> itemCount s' \<le> itemCount s + length nds"
proof (induction nds arbitrary: s)
  case Nil
  then show ?case by simp
next
  case (Cons nd nds)
  show ?case
  proof (cases "used nd")
    case False
    then show ?thesis using Cons.prems Cons.IH[of s] by simp
  next
    case True
    then obtain s1 where s1: "insert_tbl s (name nd) (item nd) = Some s1"
      and r: "reinsert_used insert_tbl nds s1 = Some s'"
      using Cons.prems(1) by (auto split: bind_splits)
    have nt: "\<not> over_threshold s" using Cons.prems(2) by (simp add: over_threshold_def)
    note f = insert_tbl_below_fields[OF nt s1]
    have "10 * (itemCount s1 + length nds) < 7 * currentSize s1"
      using f Cons.prems(2) by simp
    from Cons.IH[OF r this] f show ?thesis by simp
  qed
qed

lemma insert_tbl_load:
  assumes pos: "0 < currentSize s" and ins: "insert_tbl s key itm = Some s'"
  shows "10 * itemCount s' < 7 * currentSize s' + 10 \<and> 0 < currentSize s'"
proof (cases "over_threshold s")
  case False
  from insert_tbl_below_fields[OF False ins] False pos show ?thesis
    by (simp add: over_threshold_def)
next
  case True
  from ins True obtain s1 idx where r: "rehash_with insert_tbl s = Some s1"
    and s': "s' = store_at idx key itm s1"
    by (subst (asm) insert_tbl.simps) (auto split: bind_splits)
  from r obtain p s2 where p: "nextPrime (currentSize s * 2) = Some p"
    and l: "reinsert_used insert_tbl (map (\<lambda>i. table s ! i) [0..<currentSize s])
              (s\<lparr>table := resize p (table s), currentSize := p, itemCount := 0\<rparr>) = Some s2"
    and s1: "s1 = s2\<lparr>resizeLog := resizeLog s2 @ [currentSize s2]\<rparr>"
    by (auto simp: rehash_with_def Let_def split: bind_splits)
  have pge: "currentSize s * 2 \<le> p" using nextPrime_ge[OF p] .
  have "currentSize s2 = p \<and> itemCount s2 \<le> currentSize s"
    using reinsert_used_fields[OF l] pge pos by simp
  then show ?thesis
    using s' s1 pge pos store_at_fields(4)[of idx key itm s1] by (simp add: store_at_fields)
qed

lemma probe_rounds_Suc:
  "probe_rounds (Suc k) tbl cap key idx step =
     Option.bind (probe_rounds k tbl cap key idx step)
       (\<lambda>(i, s). if blocked tbl key i then Some ((i + s) mod cap, s + 1) else None)"
proof (induction k arbitrary: idx step)
  case 0
  show ?case by simp
next
  case (Suc k)
  show ?case
  proof (cases "blocked tbl key idx")
    case False
    then show ?thesis by simp
  next
    case True
    have a: "probe_rounds (Suc k) tbl cap key idx step =
             probe_rounds k tbl cap key ((idx + step) mod cap) (step + 1)"
      using True by simp
    have b: "probe_rounds (Suc (Suc k)) tbl cap key idx step =
             probe_rounds (Suc k) tbl cap key ((idx + step) mod cap) (step + 1)"
      using True by simp
    show ?thesis
      by (subst b, subst Suc.IH, subst a, rule refl)
  qed
qed

lemma probe_rounds_prefix:
  "probe_rounds n tbl cap key idx step = Some st \<Longrightarrow> k \<le> n \<Longrightarrow>
   \<exists>st'. probe_rounds k tbl cap key idx step = Some st'"
proof (induction n arbitrary: st)
  case 0
  then show ?case by simp
next
  case (Suc n)
  show ?case
  proof (cases "k = Suc n")
    case True
    then show ?thesis using Suc.prems(1) by blast
  next
    case False
    then have k: "k \<le> n" using Suc.prems(2) by simp
    from Suc.prems(1) obtain st0 where "probe_rounds n tbl cap key idx step = Some st0"
      unfolding probe_rounds_Suc by (auto split: bind_splits)
    from Suc.IH[OF this k] show ?thesis .
  qed
qed

lemma probe_rounds_shift:
  "probe_rounds n tbl cap key idx (step + cap) =
     map_option (\<lambda>(i, s). (i, s + cap)) (probe_rounds n tbl cap key idx step)"
proof (induction n arbitrary: idx step)
  case 0
  show ?case by simp
next
  case (Suc n)
  have "(idx + (step + cap)) mod cap = (idx + step) mod cap"
    by (simp add: add.assoc[symmetric])
  moreover have "step + cap + 1 = (step + 1) + cap" by simp
  ultimately show ?case using Suc.IH[of "(idx + step) mod cap" "step + 1"] by simp
qed

lemma probe_rounds_cycle:
  assumes "probe_rounds n tbl cap key idx step = Some (idx, step + cap)"
  shows "probe_rounds n tbl cap key idx (step + m * cap) = Some (idx, step + Suc m * cap)"
proof (induction m)
  case 0
  show ?case using assms by simp
next
  case (Suc m)
  have "probe_rounds n tbl cap key idx (step + m * cap + cap) = Some (idx, step + Suc m * cap + cap)"
    unfolding probe_rounds_shift Suc.IH by simp
  then show ?case by (simp add: ac_simps)
qed

lemma probe_cycle_diverges:
  assumes cyc: "probe_rounds n tbl cap key idx step = Some (idx, step + cap)" and n: "0 < n"
  shows "probe tbl cap key idx step = None"
proof -
  define Inv where "Inv i s \<longleftrightarrow> (\<exists>k m. k < n \<and> probe_rounds k tbl cap key idx (step + m * cap) = Some (i, s))" for i s
  have next_inv: "blocked tbl key i \<and> Inv ((i + s) mod cap) (s + 1)" if "Inv i s" for i s
  proof -
    from that obtain k m where k: "k < n"
      and pk: "probe_rounds k tbl cap key idx (step + m * cap) = Some (i, s)"
      by (auto simp: Inv_def)
    have full: "probe_rounds n tbl cap key idx (step + m * cap) = Some (idx, step + Suc m * cap)"
      by (rule probe_rounds_cycle[OF cyc])
    from probe_rounds_prefix[OF full, of "Suc k"] k
    obtain st' where sk: "probe_rounds (Suc k) tbl cap key idx (step + m * cap) = Some st'"
      by auto
    from sk pk have b: "blocked tbl key i" and st': "st' = ((i + s) mod cap, s + 1)"
      unfolding probe_rounds_Suc by (auto split: if_splits)
    have "Inv ((i + s) mod cap) (s + 1)"
    proof (cases "Suc k < n")
      case True
      then show ?thesis using sk st' unfolding Inv_def by blast
    next
      case False
      then have "Suc k = n" using k by simp
      then have "((i + s) mod cap, s + 1) = (idx, step + Suc m * cap)"
        using sk st' full by simp
      moreover have "probe_rounds 0 tbl cap key idx (step + Suc m * cap) = Some (idx, step + Suc m * cap)"
        by simp
      ultimately show ?thesis using n unfolding Inv_def by metis
    qed
    with b show ?thesis by simp
  qed
  have never: "probe tbl' cap' key' i s = Some j \<Longrightarrow> tbl' = tbl \<Longrightarrow> cap' = cap \<Longrightarrow> key' = key \<Longrightarrow> Inv i s \<Longrightarrow> False"
    for tbl' cap' key' i s j
  proof (induction rule: probe_induct)
    case (step probe' tbl' cap' key' i s j)
    from next_inv[OF step.prems(4)] have b: "blocked tbl key i" and ni: "Inv ((i + s) mod cap) (s + 1)"
      by simp_all
    from step.hyps b step.prems(1-3)
    have "probe' tbl cap key ((i + s) mod cap) (s + 1) = Some j"
      by (simp add: blocked_def)
    from step.IH[OF this refl refl refl ni] show False .
  qed
  have "Inv idx step"
    unfolding Inv_def using n by (intro exI[of _ 0]) simp
  then have "probe tbl cap key idx step \<noteq> Some j" for j
    using never by blast
  then show ?thesis by (cases "probe tbl cap key idx step") auto
qed

lemma colliding_cycle: "probe_rounds 53 (table colliding_table) 53 ''yB'' 28 1 = Some (28, 54)"
  by code_simp

text \<open>
  Every state reached from a new table by inserts that return has a table of
  \<open>currentSize\<close> slots and a positive capacity; the slots the loops read are then
  inside the table.
\<close>

lemma resize_length: "length (resize n tbl) = n"
  by (simp add: resize_def)

lemma insert_tbl_shape:
  assumes len: "length (table s) = currentSize s" and pos: "0 < currentSize s"
    and ins: "insert_tbl s key itm = Some s'"
  shows "length (table s') = currentSize s' \<and> 0 < currentSize s'"
proof (cases "over_threshold s")
  case False
  from insert_tbl_below_fields[OF False ins] len pos show ?thesis by simp
next
  case True
  from ins True obtain s1 idx where r: "rehash_with insert_tbl s = Some s1"
    and s': "s' = store_at idx key itm s1"
    by (subst (asm) insert_tbl.simps) (auto split: bind_splits)
  from r obtain p s2 where p: "nextPrime (currentSize s * 2) = Some p"
    and l: "reinsert_used insert_tbl (map (\<lambda>i. table s ! i) [0..<currentSize s])
              (s\<lparr>table := resize p (table s), currentSize := p, itemCount := 0\<rparr>) = Some s2"
    and s1: "s1 = s2\<lparr>resizeLog := resizeLog s2 @ [currentSize s2]\<rparr>"
    by (auto simp: rehash_with_def Let_def split: bind_splits)
  have pge: "currentSize s * 2 \<le> p" using nextPrime_ge[OF p] .
  have "currentSize s2 = p \<and> length (table s2) = p"
    using reinsert_used_fields[OF l] pge pos by (simp add: resize_length)
  then show ?thesis
    using s' s1 pge pos by (simp add: store_at_fields)
qed

lemma insert_all_shape:
  "insert_all kvs s = Some s' \<Longrightarrow> length (table s) = currentSize s \<Longrightarrow> 0 < currentSize s \<Longrightarrow>
   length (table s') = currentSize s' \<and> 0 < currentSize s'"
proof (induction kvs arbitrary: s)
  case Nil
  then show ?case by simp
next
  case (Cons kv kvs)
  from Cons.prems(1) obtain s1 where s1: "insert_tbl s (fst kv) (snd kv) = Some s1"
    and r: "insert_all kvs s1 = Some s'"
    by (auto split: bind_splits)
  from insert_tbl_shape[OF Cons.prems(2,3) s1] Cons.IH[OF r] show ?case by simp
qed

lemma reachable_shape:
  "insert_all kvs new_table = Some s \<Longrightarrow> length (table s) = currentSize s \<and> 0 < currentSize s"
  by (erule insert_all_shape) (simp_all add: new_table_def INITIAL_SIZE_def)

lemma spread_38_state:
  "map_option (\<lambda>s. (currentSize s, itemCount s, length (filter used (table s)), resizeLog s))
     (insert_all (entries (take 38 spread_keys)) new_table) = Some (53, 38, 38, [])"
  by code_simp

lemma insert_all_load:
  "insert_all kvs s = Some s' \<Longrightarrow> kvs \<noteq> [] \<Longrightarrow> 0 < currentSize s \<Longrightarrow>
   10 * itemCount s' < 7 * currentSize s' + 10"
proof (induction kvs arbitrary: s)
  case Nil
  then show ?case by simp
next
  case (Cons kv kvs)
  from Cons.prems(1) obtain s1 where s1: "insert_tbl s (fst kv) (snd kv) = Some s1"
    and r: "insert_all kvs s1 = Some s'"
    by (auto split: bind_splits)
  note l = insert_tbl_load[OF Cons.prems(3) s1]
  show ?case
  proof (cases "kvs = []")
    case True
    then show ?thesis using r l by simp
  next
    case False
    from Cons.IH[OF r False] l show ?thesis by simp
  qed
qed

text \<open>
  The store's own counter. The threshold is tested on entry to \<open>insert\<close>, against
  the count without the new item. So after any insert of any sequence of inserts
  into a new table, \<open>itemCount\<close> is less than one item above seven tenths of the
  capacity: \<open>10 * itemCount < 7 * currentSize + 10\<close>.
\<close>

lemma item_count_after_insert:
  assumes "insert_all kvs new_table = Some s" and "kvs \<noteq> []"
  shows "10 * itemCount s < 7 * currentSize s + 10"
  using insert_all_load[OF assms] by (simp add: new_table_def INITIAL_SIZE_def)

text \<open>
  Before the first rehash the design allows that one item: after 38 inserts of 38
  different keys into a new table no rehash has run, the capacity is 53, 38 slots
  are occupied and the count is 38.
\<close>

lemma load_38_of_53:
  "map_option (\<lambda>s. (currentSize s, itemCount s, length (filter used (table s))))
     (insert_all (entries (take 38 spread_keys)) new_table) = Some (53, 38, 38) \<and>
   \<not> 10 * (38::nat) < 7 * 53"
  by code_simp

text \<open>
  \<open>rehash\<close> resizes the table in place, so the slots of the old table stay used
  beside the copies that the re-insertion makes, and \<open>itemCount\<close>, set to 0 before
  the re-insertion, does not count them: after the 39th insert 75 of the 107 slots
  are used while the count is 37.
\<close>

lemma rehash_keeps_old_slots:
  "map_option (\<lambda>s. (currentSize s, itemCount s, length (filter used (table s))))
     (insert_all (entries (take 39 spread_keys)) new_table) = Some (107, 37, 75)"
  by code_simp

text \<open>
  Claim C1 fails on the code. \<open>rehash\<close> copies the table, resizes it in place, sets
  the count to 0 and re-inserts the copied entries; it never clears the slots, so
  the 38 old entries stay where they were, occupied, and are not counted. After 40
  inserts of 40 different keys into a new table (one rehash, on the 39th) the
  capacity is 107, the count is 38 and 76 slots are occupied: \<open>76 / 107\<close> is not
  below 0.7, and it is more than the one item above 0.7 that the test on entry
  allows (\<open>760 \<ge> 759\<close>). The count itself stays at 38, far from the threshold, so
  no further rehash brings the ratio down.
\<close>

theorem load_factor_exceeded_after_rehash:
  "map_option (\<lambda>s. (currentSize s, itemCount s, occupied s, resizeLog s, load_below_limit s,
                     10 * occupied s < 7 * currentSize s + 10))
     (insert_all (entries (spread_keys @ [''n''])) new_table) = Some (107, 38, 76, [107], False, False) \<and>
   distinct (spread_keys @ [''n'']) \<and> length (spread_keys @ [''n'']) = 40"
  by code_simp

text \<open>
  Claim C2 as stated fails. Inserting 38 different keys into a new table logs no
  resize and leaves the capacity at 53; the one resize, to 107, is logged during the
  39th insert.
\<close>

theorem rehash_trigger_counterexample:
  "map_option (\<lambda>s. (resizeLog s, currentSize s))
     (insert_all (entries (take 38 spread_keys)) new_table) = Some ([], 53) \<and>
   map_option (\<lambda>s. (resizeLog s, currentSize s))
     (insert_all (entries (take 39 spread_keys)) new_table) = Some ([107], 107)"
  by code_simp

lemma colliding_returns: "insert_all (entries colliding_keys) new_table = Some colliding_table"
proof -
  have "insert_all (entries colliding_keys) new_table \<noteq> None"
    by code_simp
  then show ?thesis by (auto simp: colliding_table_def)
qed

lemma colliding_fields:
  "currentSize colliding_table = 53 \<and> itemCount colliding_table = 27 \<and> hash ''yB'' 53 = 28"
  by code_simp

lemma colliding_probe: "probe (table colliding_table) 53 ''yB'' 28 1 = None"
proof (rule probe_cycle_diverges)
  show "probe_rounds 53 (table colliding_table) 53 ''yB'' 28 1 = Some (28, 1 + 53)"
    using colliding_cycle by simp
  show "0 < (53::nat)" by simp
qed

text \<open>
  Claim C6 fails on the code. The 27 keys of \<open>colliding_keys\<close> have the same character
  sum, 187, and so the same home slot, 28. Their 27 inserts into a new table all
  return and fill every slot that the collision loop can reach from slot 28 (with
  capacity 53 the triangular steps reach only 27 slots). No rehash is due at 27
  items. The insert of one more key with the same sum, \<open>yB\<close>, never leaves the
  loop: it finds neither an unused slot nor its own key.
\<close>

theorem insert_colliding_key_never_returns:
  "insert_all (entries colliding_keys) new_table \<noteq> None \<and>
   length colliding_keys = 27 \<and> distinct (''yB'' # colliding_keys) \<and>
   Option.bind (insert_all (entries colliding_keys) new_table) (\<lambda>s. insert_tbl s ''yB'' (stock 1)) = None"
proof -
  have nt: "\<not> over_threshold colliding_table"
    using colliding_fields by (simp add: over_threshold_def)
  have "insert_tbl colliding_table ''yB'' (stock 1) = None"
    unfolding insert_tbl_below_threshold[OF nt] using colliding_fields colliding_probe by simp
  moreover have "length colliding_keys = 27 \<and> distinct (''yB'' # colliding_keys)"
    by code_simp
  ultimately show ?thesis by (simp add: colliding_returns)
qed

lemma hash_less: "0 < cap \<Longrightarrow> hash key cap < cap"
  by (simp add: hash_def)

lemma holds_keys_new: "holds_keys new_table {}"
  by (simp add: holds_keys_def new_table_def INITIAL_SIZE_def blank_node_def)

lemma holds_keys_insert:
  assumes inv: "holds_keys s K" and c: "card K \<le> 37" and k: "key \<notin> K"
    and ins: "insert_tbl s key itm = Some s'"
  shows "holds_keys s' (insert key K)"
proof -
  from inv have cs: "currentSize s = 53" and len: "length (table s) = 53" and lg: "resizeLog s = []"
    and fin: "finite K" and ic: "itemCount s = card K"
    and nm: "\<forall>nd \<in> set (table s). used nd \<longrightarrow> name nd \<in> K"
    by (simp_all add: holds_keys_def)
  have nt: "\<not> over_threshold s" using c cs ic by (simp add: over_threshold_def)
  from ins obtain idx where p: "probe (table s) 53 key (hash key 53) 1 = Some idx"
    and s': "s' = store_at idx key itm s"
    unfolding insert_tbl_below_threshold[OF nt] cs by (auto split: bind_splits)
  have idx: "idx < 53" using probe_in_range[OF p] by (simp add: hash_less)
  then have mem: "table s ! idx \<in> set (table s)" using len by simp
  have "\<not> used (table s ! idx)"
    using probe_stops[OF p] nm mem k by blast
  then have ic': "itemCount s' = card (insert key K)"
    using s' ic fin k by (simp add: store_at_def)
  have "set (table s') \<subseteq> insert \<lparr>name = key, item = itm, used = True\<rparr> (set (table s))"
    unfolding s' store_at_def by (simp add: set_update_subset_insert)
  then have "\<forall>nd \<in> set (table s'). used nd \<longrightarrow> name nd \<in> insert key K"
    using nm by auto
  then show ?thesis
    using ic' cs len lg fin unfolding holds_keys_def s' by (simp add: store_at_def)
qed

lemma holds_keys_insert_all:
  "holds_keys s K \<Longrightarrow> distinct (map fst kvs) \<Longrightarrow> set (map fst kvs) \<inter> K = {} \<Longrightarrow>
   card K + length kvs \<le> 38 \<Longrightarrow> insert_all kvs s = Some s' \<Longrightarrow>
   holds_keys s' (K \<union> set (map fst kvs))"
proof (induction kvs arbitrary: s K)
  case Nil
  then show ?case by simp
next
  case (Cons kv kvs)
  from Cons.prems(5) obtain s1 where s1: "insert_tbl s (fst kv) (snd kv) = Some s1"
    and r: "insert_all kvs s1 = Some s'"
    by (auto split: bind_splits)
  have fin: "finite K" using Cons.prems(1) by (simp add: holds_keys_def)
  have k: "fst kv \<notin> K" using Cons.prems(3) by auto
  have "holds_keys s1 (insert (fst kv) K)"
    using holds_keys_insert[OF Cons.prems(1) _ k s1] Cons.prems(4) by simp
  moreover have "distinct (map fst kvs)" using Cons.prems(2) by simp
  moreover have "set (map fst kvs) \<inter> insert (fst kv) K = {}"
    using Cons.prems(2,3) by auto
  moreover have "card (insert (fst kv) K) + length kvs \<le> 38"
    using Cons.prems(4) fin k by simp
  ultimately have "holds_keys s' (insert (fst kv) K \<union> set (map fst kvs))"
    using Cons.IH r by blast
  then show ?case by simp
qed

lemma nextPrime_106: "nextPrime 106 = Some 107"
  by code_simp

lemma first_rehash:
  assumes cs: "currentSize s = 53" and len: "length (table s) = 53" and ic: "itemCount s = 38"
    and lg: "resizeLog s = []" and ins: "insert_tbl s key itm = Some s'"
  shows "resizeLog s' = [107] \<and> currentSize s' = 107"
proof -
  have ot: "over_threshold s" using cs ic by (simp add: over_threshold_def)
  from ins ot obtain s1 idx where r: "rehash_with insert_tbl s = Some s1"
    and s': "s' = store_at idx key itm s1"
    by (subst (asm) insert_tbl.simps) (auto split: bind_splits)
  from r obtain s2 where
    l: "reinsert_used insert_tbl (map (\<lambda>i. table s ! i) [0..<53])
              (s\<lparr>table := resize 107 (table s), currentSize := 107, itemCount := 0\<rparr>) = Some s2"
    and s1: "s1 = s2\<lparr>resizeLog := resizeLog s2 @ [currentSize s2]\<rparr>"
    by (auto simp: rehash_with_def Let_def cs nextPrime_106 split: bind_splits)
  have "currentSize s2 = 107 \<and> resizeLog s2 = []"
    using reinsert_used_fields[OF l] lg by simp
  then show ?thesis
    using s' s1 by (simp add: store_at_fields)
qed

text \<open>
  Claim C2, amended. Starting from a new table (capacity 53), after 38 inserts of
  38 different keys that all return, no resize has been logged, the capacity is still
  53 and the count is 38. The next insert that returns (of any key) finds
  \<open>38 / 53 \<ge> 0.7\<close> on entry and runs the one rehash: exactly one resize is logged,
  to 107, the least prime from \<open>2 * 53\<close> on, and the capacity is 107.
\<close>

theorem rehash_on_39th_insert:
  assumes "distinct (map fst kvs)" and "length kvs = 38"
    and "insert_all kvs new_table = Some s" and "insert_tbl s key itm = Some s'"
  shows "resizeLog s = [] \<and> currentSize s = 53 \<and> itemCount s = 38 \<and>
         resizeLog s' = [107] \<and> currentSize s' = 107"
proof -
  have "holds_keys s ({} \<union> set (map fst kvs))"
    by (rule holds_keys_insert_all[OF holds_keys_new assms(1) _ _ assms(3)]) (simp_all add: assms(2))
  moreover have "card (set (map fst kvs)) = 38"
    using distinct_card[OF assms(1)] assms(2) by simp
  ultimately have h: "currentSize s = 53" "length (table s) = 53" "itemCount s = 38" "resizeLog s = []"
    by (simp_all add: holds_keys_def)
  from first_rehash[OF h assms(4)] h show ?thesis by simp
qed

lemma spread_39_returns:
  "Option.bind (insert_all (entries (take 38 spread_keys)) new_table)
     (\<lambda>s. insert_tbl s ''m'' (stock 1)) \<noteq> None"
  by code_simp

lemma spread_38_distinct:
  "distinct (map fst (entries (take 38 spread_keys))) \<and> length (entries (take 38 spread_keys)) = 38"
  by code_simp

theorem rehash_on_39th_insert_witness:
  "\<exists>s s'. insert_all (entries (take 38 spread_keys)) new_table = Some s \<and>
          insert_tbl s ''m'' (stock 1) = Some s' \<and>
          resizeLog s = [] \<and> currentSize s = 53 \<and> itemCount s = 38 \<and>
          resizeLog s' = [107] \<and> currentSize s' = 107"
proof -
  from spread_39_returns obtain s s' where
    s: "insert_all (entries (take 38 spread_keys)) new_table = Some s"
    and s': "insert_tbl s ''m'' (stock 1) = Some s'"
    by (auto split: bind_splits)
  from spread_38_distinct have d: "distinct (map fst (entries (take 38 spread_keys)))"
    and l: "length (entries (take 38 spread_keys)) = 38" by simp_all
  from rehash_on_39th_insert[OF d l s s'] s s' show ?thesis by blast
qed































text \<open>
  The rounds of the collision loop. After \<open>n\<close> rounds the loop is at
  \<open>slot_after cap idx step n\<close>, and these slots repeat with period \<open>2 * cap\<close>; so a
  loop that ends has run fewer than \<open>2 * cap\<close> rounds, and \<open>step\<close> has stayed below
  \<open>step + 2 * cap\<close>.
\<close>

lemma probe_rounds_value:
  "probe_rounds n tbl cap key idx step = Some (i, s) \<Longrightarrow> idx < cap \<Longrightarrow>
   i = slot_after cap idx step n \<and> s = step + n"
proof (induction n arbitrary: idx step)
  case 0
  then show ?case by (simp add: slot_after_def)
next
  case (Suc n)
  from Suc.prems(1) have r: "probe_rounds n tbl cap key ((idx + step) mod cap) (step + 1) = Some (i, s)"
    by (simp split: if_splits)
  have lt: "(idx + step) mod cap < cap" using Suc.prems(2) by simp
  from Suc.IH[OF r lt] have i: "i = ((idx + step) mod cap + n * (step + 1) + tri n) mod cap"
    and s: "s = step + 1 + n" by (simp_all add: slot_after_def)
  have "((idx + step) mod cap + (n * (step + 1) + tri n)) mod cap
        = ((idx + step) + (n * (step + 1) + tri n)) mod cap"
    by (rule mod_add_left_eq)
  also have "(idx + step) + (n * (step + 1) + tri n) = idx + Suc n * step + tri (Suc n)"
    by simp
  finally show ?case using i s by (simp add: slot_after_def add.assoc)
qed

lemma probe_rounds_stop:
  "probe_rounds n tbl cap key idx step = Some (i, s) \<Longrightarrow> \<not> blocked tbl key i \<Longrightarrow>
   probe tbl cap key idx step = Some i"
proof (induction n arbitrary: idx step)
  case 0
  then show ?case by (subst probe.simps) (auto simp: blocked_def)
next
  case (Suc n)
  from Suc.prems(1) have b: "blocked tbl key idx"
    and r: "probe_rounds n tbl cap key ((idx + step) mod cap) (step + 1) = Some (i, s)"
    by (simp_all split: if_splits)
  from Suc.IH[OF r Suc.prems(2)] b show ?case
    by (subst probe.simps) (simp add: blocked_def)
qed


lemma probe_Some_rounds:
  "probe tbl cap key idx step = Some j \<Longrightarrow>
   \<exists>n. probe_rounds n tbl cap key idx step = Some (j, step + n) \<and> \<not> blocked tbl key j"
proof (induction rule: probe_induct)
  case (step probe' tbl cap key idx st j)
  show ?case
  proof (cases "blocked tbl key idx")
    case False
    with step.hyps have "j = idx" by (auto simp: blocked_def)
    with False have "probe_rounds 0 tbl cap key idx st = Some (j, st + 0) \<and> \<not> blocked tbl key j"
      by simp
    then show ?thesis by blast
  next
    case True
    with step.hyps have "probe' tbl cap key ((idx + st) mod cap) (st + 1) = Some j"
      by (simp add: blocked_def)
    from step.IH[OF this] obtain n where
      "probe_rounds n tbl cap key ((idx + st) mod cap) (st + 1) = Some (j, st + 1 + n)"
      "\<not> blocked tbl key j" by blast
    with True have "probe_rounds (Suc n) tbl cap key idx st = Some (j, st + Suc n) \<and> \<not> blocked tbl key j"
      by simp
    then show ?thesis by blast
  qed
qed

lemma tri_double: "2 * tri n + n = n * n"
  by (induction n) simp_all

lemma tri_add: "tri (m + k) = tri m + tri k + m * k"
  by (induction k) simp_all

lemma tri_period: "tri (2 * c) + c = 2 * c * c"
proof -
  have "2 * tri (2 * c) + 2 * c = 2 * c * (2 * c)" by (rule tri_double)
  then have "2 * (tri (2 * c) + c) = 2 * (2 * c * c)" by (simp add: algebra_simps)
  then show ?thesis by (simp only: mult_cancel_left) simp
qed


lemma slot_after_period: "slot_after cap idx step (m + 2 * cap) = slot_after cap idx step m"
proof -
  let ?x = "idx + m * step + tri m" and ?y = "idx + (m + 2 * cap) * step + tri (m + 2 * cap)"
  have "tri (m + 2 * cap) + cap = tri m + (tri (2 * cap) + cap) + m * (2 * cap)"
    by (simp only: tri_add)
  then have "tri (m + 2 * cap) + cap = tri m + 2 * cap * cap + m * (2 * cap)"
    by (simp only: tri_period)
  then have "cap + ?y = ?x + cap * (2 * step + 2 * cap + 2 * m)"
    by (simp add: algebra_simps)
  then have "(cap + ?y) mod cap = (?x + cap * (2 * step + 2 * cap + 2 * m)) mod cap"
    by (rule arg_cong)
  then have "?y mod cap = ?x mod cap" by simp
  then show ?thesis by (simp only: slot_after_def)
qed

lemma probe_returns_within:
  assumes p: "probe tbl cap key idx step = Some j" and lt: "idx < cap"
  shows "\<exists>n<2 * cap. probe_rounds n tbl cap key idx step = Some (j, step + n)"
proof -
  from probe_Some_rounds[OF p] obtain n where
    n: "probe_rounds n tbl cap key idx step = Some (j, step + n)" and nb: "\<not> blocked tbl key j"
    by blast
  have "n < 2 * cap"
  proof (rule ccontr)
    assume "\<not> n < 2 * cap"
    define m where "m = n - 2 * cap"
    with \<open>\<not> n < 2 * cap\<close> have m: "n = m + 2 * cap" by simp
    from probe_rounds_prefix[OF n, of "Suc m"] m obtain st
      where sm: "probe_rounds (Suc m) tbl cap key idx step = Some st" using lt by fastforce
    then obtain i s where im: "probe_rounds m tbl cap key idx step = Some (i, s)"
      and bi: "blocked tbl key i"
      unfolding probe_rounds_Suc by (auto split: bind_splits if_splits)
    from probe_rounds_value[OF im lt] have "i = slot_after cap idx step m" by simp
    moreover from probe_rounds_value[OF n lt] have "j = slot_after cap idx step n" by simp
    ultimately have "i = j" using m slot_after_period[of cap idx step m] by simp
    with bi nb show False by simp
  qed
  with n show ?thesis by blast
qed













section \<open>Properties of the AVL tree\<close>

lemma ht_nonneg: "0 \<le> ht t"
  by (induction t) auto

lemma height_avl: "avl t \<Longrightarrow> height t = ht t"
  by (cases t) auto

lemma avl_balanced: "avl t \<Longrightarrow> balanced t"
  by (induction t) auto

text \<open>No rotation: the node is rebuilt with its height stored.\<close>

lemma rebalance_none:
  assumes "avl l" "avl r" "\<bar>ht l - ht r\<bar> \<le> 1"
  shows "rebalance key k n l r = Some (Node k n l r (1 + max (ht l) (ht r)))"
  using assms by (auto simp: rebalance_def Let_def height_avl)

text \<open>The left subtree is two higher and leans to the side of the key.\<close>

lemma rebalance_left:
  assumes l: "avl l" and r: "avl r" and h: "ht l = ht r + 2" and ln: "leans key l"
  shows "\<exists>t'. rebalance key k n l r = Some t' \<and> avl t' \<and> ht t' = ht l"
proof -
  from h ht_nonneg[of r] have "l \<noteq> Null" by auto
  then obtain lk lnm ll lr lh where L: "l = Node lk lnm ll lr lh" by (cases l) auto
  from l L have all: "avl ll" and alr: "avl lr" and lh: "lh = 1 + max (ht ll) (ht lr)"
    and bl: "\<bar>ht ll - ht lr\<bar> \<le> 1" by simp_all
  have bf: "balanceFactor (Node k n l r (1 + max (height l) (height r))) > 1"
    using h l r by (simp add: height_avl)
  from ln L h ht_nonneg[of r] have cases: "(key < lk \<and> ht ll = ht lr + 1) \<or> (key > lk \<and> ht lr = ht ll + 1)"
    by auto
  then show ?thesis
  proof
    assume c: "key < lk \<and> ht ll = ht lr + 1"
    then show ?thesis
      using bf L l r h all alr lh bl
      by (auto simp: rebalance_def Let_def height_avl max_def)
  next
    assume c: "key > lk \<and> ht lr = ht ll + 1"
    with ht_nonneg[of ll] have "lr \<noteq> Null" by auto
    then obtain mk mn ml mr mh where M: "lr = Node mk mn ml mr mh" by (cases lr) auto
    from alr M have "avl ml" "avl mr" "mh = 1 + max (ht ml) (ht mr)" "\<bar>ht ml - ht mr\<bar> \<le> 1"
      by simp_all
    then show ?thesis
      using c bf L M l r h all lh bl
      by (auto simp: rebalance_def Let_def height_avl max_def split: if_splits)
  qed
qed

lemma rebalance_right:
  assumes l: "avl l" and r: "avl r" and h: "ht r = ht l + 2" and ln: "leans key r"
  shows "\<exists>t'. rebalance key k n l r = Some t' \<and> avl t' \<and> ht t' = ht r"
proof -
  from h ht_nonneg[of l] have "r \<noteq> Null" by auto
  then obtain rk rnm rl rr rh where R: "r = Node rk rnm rl rr rh" by (cases r) auto
  from r R have arl: "avl rl" and arr: "avl rr" and rh: "rh = 1 + max (ht rl) (ht rr)"
    and br: "\<bar>ht rl - ht rr\<bar> \<le> 1" by simp_all
  have bf: "balanceFactor (Node k n l r (1 + max (height l) (height r))) < - 1"
    using h l r by (simp add: height_avl)
  from ln R h ht_nonneg[of l] have cases: "(key > rk \<and> ht rr = ht rl + 1) \<or> (key < rk \<and> ht rl = ht rr + 1)"
    by auto
  then show ?thesis
  proof
    assume c: "key > rk \<and> ht rr = ht rl + 1"
    then show ?thesis
      using bf R l r h arl arr rh br
      by (auto simp: rebalance_def Let_def height_avl max_def)
  next
    assume c: "key < rk \<and> ht rl = ht rr + 1"
    with ht_nonneg[of rr] have "rl \<noteq> Null" by auto
    then obtain mk mn ml mr mh where M: "rl = Node mk mn ml mr mh" by (cases rl) auto
    from arl M have "avl ml" "avl mr" "mh = 1 + max (ht ml) (ht mr)" "\<bar>ht ml - ht mr\<bar> \<le> 1"
      by simp_all
    then show ?thesis
      using c bf R M l r h arr rh br
      by (auto simp: rebalance_def Let_def height_avl max_def split: if_splits)
  qed
qed


lemma insertAVL_avl:
  "avl t \<Longrightarrow> \<exists>t'. insertAVL t key nm = Some t' \<and> avl t' \<and>
                  (ht t' = ht t \<or> (ht t' = ht t + 1 \<and> leans key t'))"
proof (induction t)
  case Null
  show ?case by (simp add: createNode_def)
next
  case (Node k n l r h)
  from Node.prems have al: "avl l" and ar: "avl r" and b: "\<bar>ht l - ht r\<bar> \<le> 1"
    and h: "h = 1 + max (ht l) (ht r)" by simp_all
  consider (lt) "key < k" | (gt) "key > k" | (eq) "key = k" by linarith
  then show ?case
  proof cases
    case eq
    then show ?thesis using Node.prems by simp
  next
    case lt
    from Node.IH(1)[OF al] obtain l' where l': "insertAVL l key nm = Some l'" and al': "avl l'"
      and hl: "ht l' = ht l \<or> (ht l' = ht l + 1 \<and> leans key l')" by blast
    have ins: "insertAVL (Node k n l r h) key nm = rebalance key k n l' r"
      using lt l' by simp
    show ?thesis
    proof (cases "ht l' = ht r + 2")
      case True
      with hl b have "leans key l'" by auto
      from rebalance_left[OF al' ar True this, of k n] obtain t' where
        "rebalance key k n l' r = Some t'" "avl t'" "ht t' = ht l'" by blast
      moreover have "ht (Node k n l r h) = ht l'" using True hl b by auto
      ultimately show ?thesis using ins by simp
    next
      case False
      with hl b have b': "\<bar>ht l' - ht r\<bar> \<le> 1" by auto
      have t': "rebalance key k n l' r = Some (Node k n l' r (1 + max (ht l') (ht r)))"
        by (rule rebalance_none[OF al' ar b'])
      have "avl (Node k n l' r (1 + max (ht l') (ht r)))" using al' ar b' by simp
      moreover have "ht (Node k n l' r (1 + max (ht l') (ht r))) = ht (Node k n l r h) \<or>
             (ht (Node k n l' r (1 + max (ht l') (ht r))) = ht (Node k n l r h) + 1 \<and>
              leans key (Node k n l' r (1 + max (ht l') (ht r))))"
        using hl b b' lt by (auto simp: max_def)
      ultimately show ?thesis using ins t' by simp
    qed
  next
    case gt
    from Node.IH(2)[OF ar] obtain r' where r': "insertAVL r key nm = Some r'" and ar': "avl r'"
      and hr: "ht r' = ht r \<or> (ht r' = ht r + 1 \<and> leans key r')" by blast
    have ins: "insertAVL (Node k n l r h) key nm = rebalance key k n l r'"
      using gt r' by simp
    show ?thesis
    proof (cases "ht r' = ht l + 2")
      case True
      with hr b have "leans key r'" by auto
      from rebalance_right[OF al ar' True this, of k n] obtain t' where
        "rebalance key k n l r' = Some t'" "avl t'" "ht t' = ht r'" by blast
      moreover have "ht (Node k n l r h) = ht r'" using True hr b by auto
      ultimately show ?thesis using ins by simp
    next
      case False
      with hr b have b': "\<bar>ht l - ht r'\<bar> \<le> 1" by auto
      have t': "rebalance key k n l r' = Some (Node k n l r' (1 + max (ht l) (ht r')))"
        by (rule rebalance_none[OF al ar' b'])
      have "avl (Node k n l r' (1 + max (ht l) (ht r')))" using al ar' b' by simp
      moreover have "ht (Node k n l r' (1 + max (ht l) (ht r'))) = ht (Node k n l r h) \<or>
             (ht (Node k n l r' (1 + max (ht l) (ht r'))) = ht (Node k n l r h) + 1 \<and>
              leans key (Node k n l r' (1 + max (ht l) (ht r'))))"
        using hr b b' gt by (auto simp: max_def)
      ultimately show ?thesis using ins t' by simp
    qed
  qed
qed

lemma rightRotate_inorder: "rightRotate t = Some t' \<Longrightarrow> inorderBST t' = inorderBST t"
  by (induction t rule: rightRotate.induct) (auto simp: Let_def)

lemma leftRotate_inorder: "leftRotate t = Some t' \<Longrightarrow> inorderBST t' = inorderBST t"
  by (induction t rule: leftRotate.induct) (auto simp: Let_def)

lemma rebalance_inorder:
  assumes "rebalance key k n l r = Some t'"
  shows "inorderBST t' = inorderBST l @ [(k, n)] @ inorderBST r"
proof -
  have rr: "rightRotate (Node k n a b c) = Some t' \<Longrightarrow> inorderBST t' = inorderBST a @ [(k, n)] @ inorderBST b" for a b c
    using rightRotate_inorder[of "Node k n a b c" t'] by simp
  have lr: "leftRotate (Node k n a b c) = Some t' \<Longrightarrow> inorderBST t' = inorderBST a @ [(k, n)] @ inorderBST b" for a b c
    using leftRotate_inorder[of "Node k n a b c" t'] by simp
  show ?thesis
    using assms
    by (auto simp: rebalance_def Let_def rr lr split: if_splits BSTNode.splits bind_splits
             dest!: rightRotate_inorder leftRotate_inorder)
qed

lemma insertAVL_keys:
  "insertAVL t key nm = Some t' \<Longrightarrow> sorted_wrt (<) (keys t) \<Longrightarrow>
   sorted_wrt (<) (keys t') \<and> set (keys t') = insert key (set (keys t))"
proof (induction t arbitrary: t')
  case Null
  then show ?case by (auto simp: createNode_def keys_def)
next
  case (Node k n l r h)
  from Node.prems(2) have sl: "sorted_wrt (<) (keys l)" and sr: "sorted_wrt (<) (keys r)"
    and lk: "\<forall>x \<in> set (keys l). x < k" and kr: "\<forall>y \<in> set (keys r). k < y"
    and lr: "\<forall>x \<in> set (keys l). \<forall>y \<in> set (keys r). x < y"
    by (auto simp: keys_def sorted_wrt_append)
  consider (lt) "key < k" | (gt) "key > k" | (eq) "key = k" by linarith
  then show ?case
  proof cases
    case eq
    then show ?thesis using Node.prems by (auto simp: keys_def)
  next
    case lt
    from Node.prems(1) lt obtain l' where l': "insertAVL l key nm = Some l'"
      and t': "rebalance key k n l' r = Some t'" by (auto split: bind_splits)
    from Node.IH(1)[OF l' sl] have sl': "sorted_wrt (<) (keys l')"
      and set': "set (keys l') = insert key (set (keys l))" by simp_all
    have "keys t' = keys l' @ [k] @ keys r"
      using rebalance_inorder[OF t'] by (simp add: keys_def)
    then show ?thesis
      using sl' set' sr lk kr lr lt by (auto simp: sorted_wrt_append keys_def)
  next
    case gt
    from Node.prems(1) gt obtain r' where r': "insertAVL r key nm = Some r'"
      and t': "rebalance key k n l r' = Some t'" by (auto split: bind_splits)
    from Node.IH(2)[OF r' sr] have sr': "sorted_wrt (<) (keys r')"
      and set': "set (keys r') = insert key (set (keys r))" by simp_all
    have "keys t' = keys l @ [k] @ keys r'"
      using rebalance_inorder[OF t'] by (simp add: keys_def)
    then show ?thesis
      using sr' set' sl lk kr lr gt by (auto simp: sorted_wrt_append keys_def)
  qed
qed

lemma insert_seq_avl:
  "avl t \<Longrightarrow> sorted_wrt (<) (keys t) \<Longrightarrow>
   \<exists>t'. insert_seq kvs t = Some t' \<and> avl t' \<and> sorted_wrt (<) (keys t') \<and>
        set (keys t') = set (keys t) \<union> set (map fst kvs)"
proof (induction kvs arbitrary: t)
  case Nil
  then show ?case by simp
next
  case (Cons kv kvs)
  obtain key nm where kv: "kv = (key, nm)" by (cases kv) auto
  from insertAVL_avl[OF Cons.prems(1), of key nm] obtain t1 where
    t1: "insertAVL t key nm = Some t1" and a1: "avl t1" by blast
  from insertAVL_keys[OF t1 Cons.prems(2)] have s1: "sorted_wrt (<) (keys t1)"
    and k1: "set (keys t1) = insert key (set (keys t))" by simp_all
  from Cons.IH[OF a1 s1] obtain t' where "insert_seq kvs t1 = Some t'" "avl t'"
    "sorted_wrt (<) (keys t')" "set (keys t') = set (keys t1) \<union> set (map fst kvs)" by blast
  then show ?case using t1 k1 kv by auto
qed

text \<open>
  Claim C7. Every sequence of inserts into the empty tree runs through (no rotation
  meets a missing child), and the tree after it, hence after each of its inserts, is
  balanced at every node: the heights of the two subtrees differ by at most one. Its
  in-order traversal lists the keys in strictly ascending order, and they are the
  keys that were inserted.
\<close>

theorem avl_after_inserts:
  "\<exists>t. insert_seq kvs Null = Some t \<and> balanced t \<and>
       sorted_wrt (<) (map fst (inorderBST t)) \<and>
       set (map fst (inorderBST t)) = set (map fst kvs)"
proof -
  have "avl Null" "sorted_wrt (<) (keys Null)" by (simp_all add: keys_def)
  from insert_seq_avl[OF this, of kvs] obtain t where "insert_seq kvs Null = Some t" "avl t"
    "sorted_wrt (<) (keys t)" "set (keys t) = set (keys Null) \<union> set (map fst kvs)" by blast
  then show ?thesis using avl_balanced[of t] by (auto simp: keys_def)
qed

text \<open>Scenario A of the specification: the keys 10, 20, 30 in that order give root 20 over 10 and 30.\<close>

lemma avl_scenario_10_20_30:
  "insert_seq [(10, ''a''), (20, ''b''), (30, ''c'')] Null =
     Some (Node 20 ''b'' (Node 10 ''a'' Null Null 1) (Node 30 ''c'' Null Null 1) 2)"
  by code_simp

end
